theory Spec2Isabelle
  imports Main "HOL-Library.Sublist" "HOL-Library.Multiset" "HOL-Library.Word"
begin

section \<open>The Aho-Corasick automaton of Aho-Corasick.h\<close>

text \<open>
  The class \<^verbatim>\<open>Aho_Corasick\<close> builds a trie of heap-allocated nodes that point at each
  other (children, parent, failure link, output link) and mutates them in place.  The
  model keeps this shape: a pointer is an optional address, the memory is the list of
  all nodes allocated so far, \<^verbatim>\<open>new Node{}\<close> appends a node and returns its index.
  Every function that dereferences a pointer returns an option; \<open>None\<close> stands for a
  run that does not return normally (a null or dangling dereference, or a loop that never
  ends).

  An \<^verbatim>\<open>unordered_map<char, Node*>\<close> is an association list with distinct keys, kept in
  insertion order; the order in which a range-for visits its entries, which C++ leaves
  unspecified, is a parameter \<open>ord\<close> of the model (see \<open>iterate\<close> below).  The loop
  index \<^verbatim>\<open>int i\<close> of \<^verbatim>\<open>findPatterns\<close> is a 32-bit word whose increment wraps around,
  and \<^verbatim>\<open>text.size()\<close> is a 64-bit \<^verbatim>\<open>size_t\<close>.  What \<^verbatim>\<open>findPatterns\<close> prints is recorded
  as a list of pairs: the pattern printed and the position of the character of the text
  read in that iteration (the index of the last character of the occurrence).
\<close>

subsection \<open>Nodes and memory\<close>

type_synonym ptr = "nat option"

record Node =
  children :: "(char \<times> ptr) list"
  parent :: ptr
  failureLink :: ptr
  outputLink :: ptr
  isWord :: bool
  parentChar :: char
  node_id :: int
  pattern :: string

type_synonym heap = "Node list"

text \<open>\<^verbatim>\<open>Node{}\<close>: the default member initialisers of the struct.\<close>

definition new_Node :: Node where
  "new_Node = \<lparr>children = [], parent = None, failureLink = None, outputLink = None,
     isWord = False, parentChar = CHR ''*'', node_id = - 1, pattern = []\<rparr>"

text \<open>The member \<^verbatim>\<open>root\<close>: the first node the constructor allocates.\<close>

definition root :: nat where
  "root = 0"

text \<open>A pointer can be dereferenced when it is not null and points at an allocated node.\<close>

definition deref :: "heap \<Rightarrow> ptr \<Rightarrow> nat option" where
  "deref h p = (case p of None \<Rightarrow> None | Some a \<Rightarrow> if a < length h then Some a else None)"

text \<open>\<^verbatim>\<open>m.contains(c)\<close>.\<close>

definition contains :: "(char \<times> ptr) list \<Rightarrow> char \<Rightarrow> bool" where
  "contains m c = (map_of m c \<noteq> None)"

text \<open>
  \<^verbatim>\<open>node->children[c]\<close> as an rvalue: \<^verbatim>\<open>operator[]\<close> returns the stored pointer, and
  when the key is absent it first inserts the key with a null pointer.
\<close>

definition child_ref :: "heap \<Rightarrow> nat \<Rightarrow> char \<Rightarrow> ptr \<times> heap" where
  "child_ref h a c =
     (case map_of (children (h ! a)) c of
        Some p \<Rightarrow> (p, h)
      | None \<Rightarrow> (None, h[a := (h ! a)\<lparr>children := children (h ! a) @ [(c, None)]\<rparr>]))"

text \<open>\<^verbatim>\<open>node->children[c] = p\<close>: insert the key or overwrite its value.\<close>

definition child_assign :: "heap \<Rightarrow> nat \<Rightarrow> char \<Rightarrow> ptr \<Rightarrow> heap" where
  "child_assign h a c p =
     (if contains (children (h ! a)) c
      then h[a := (h ! a)\<lparr>children := map (\<lambda>(k, v). if k = c then (k, p) else (k, v)) (children (h ! a))\<rparr>]
      else h[a := (h ! a)\<lparr>children := children (h ! a) @ [(c, p)]\<rparr>])"

text \<open>
  \<^verbatim>\<open>for (auto [c, nextNode] : node->children)\<close>: the loop visits every entry of the map
  once, in an order that depends on the implementation of the hash table.  The parameter
  \<open>ord\<close> gives this order for every map; where \<open>ord\<close> does not return a rearrangement of
  the entries, the stored order is used, so that every function \<open>ord\<close> stands for an order
  of iteration.
\<close>

type_synonym order = "(char \<times> ptr) list \<Rightarrow> (char \<times> ptr) list"

definition iterate :: "order \<Rightarrow> (char \<times> ptr) list \<Rightarrow> (char \<times> ptr) list" where
  "iterate ord m = (if mset (ord m) = mset m then ord m else m)"

subsection \<open>Trie construction\<close>

text \<open>One iteration of the loop of \<^verbatim>\<open>insert\<close>, for the character \<open>c\<close>.\<close>

definition insert_step :: "nat \<Rightarrow> char \<Rightarrow> heap \<Rightarrow> (nat \<times> heap) option" where
  "insert_step node c h =
     (if node < length h then
        let h1 = (if \<not> contains (children (h ! node)) c
                  then child_assign (h @ [new_Node]) node c (Some (length h))
                  else h);
            (p1, h2) = child_ref h1 node c
        in case deref h2 p1 of None \<Rightarrow> None
           | Some a1 \<Rightarrow>
               let h3 = h2[a1 := (h2 ! a1)\<lparr>parent := Some node\<rparr>];
                   (p2, h4) = child_ref h3 node c
               in case deref h4 p2 of None \<Rightarrow> None
                  | Some a2 \<Rightarrow>
                      let h5 = h4[a2 := (h4 ! a2)\<lparr>parentChar := c\<rparr>];
                          (p3, h6) = child_ref h5 node c
                      in case deref h6 p3 of None \<Rightarrow> None
                         | Some a3 \<Rightarrow> Some (a3, h6)
      else None)"

fun insert_loop :: "nat \<Rightarrow> string \<Rightarrow> heap \<Rightarrow> (nat \<times> heap) option" where
  "insert_loop node [] h = Some (node, h)"
| "insert_loop node (c # s) h =
     (case insert_step node c h of None \<Rightarrow> None
      | Some (node', h') \<Rightarrow> insert_loop node' s h')"

definition insert_trie :: "string \<Rightarrow> heap \<Rightarrow> heap option" where
  "insert_trie s h =
     (case insert_loop root s h of None \<Rightarrow> None
      | Some (node, h1) \<Rightarrow>
          if node < length h1
          then Some (h1[node := (h1 ! node)\<lparr>isWord := True, pattern := s\<rparr>])
          else None)"

fun insert_all :: "string list \<Rightarrow> heap \<Rightarrow> heap option" where
  "insert_all [] h = Some h"
| "insert_all (word # ws) h =
     (case insert_trie word h of None \<Rightarrow> None | Some h' \<Rightarrow> insert_all ws h')"

text \<open>
  \<^verbatim>\<open>assignIds\<close>: a breadth-first walk with a queue.  The inner loop pops the \<open>size\<close>
  nodes of one level, the outer loop runs until the queue is empty.
\<close>

fun assignIds_level :: "order \<Rightarrow> nat \<Rightarrow> ptr list \<Rightarrow> int \<Rightarrow> heap \<Rightarrow> (ptr list \<times> int \<times> heap) option" where
  "assignIds_level ord 0 q i h = Some (q, i, h)"
| "assignIds_level ord (Suc sz) q i h =
     (case q of [] \<Rightarrow> None
      | p # rest \<Rightarrow>
          (case deref h p of None \<Rightarrow> None
           | Some node \<Rightarrow>
               let h' = h[node := (h ! node)\<lparr>node_id := i\<rparr>]
               in assignIds_level ord sz (rest @ map snd (iterate ord (children (h' ! node)))) (i + 1) h'))"

partial_function (option) assignIds_loop :: "order \<Rightarrow> ptr list \<Rightarrow> int \<Rightarrow> heap \<Rightarrow> heap option" where
  "assignIds_loop ord q i h =
     (if q = [] then Some h
      else case assignIds_level ord (length q) q i h of None \<Rightarrow> None
           | Some (q', i', h') \<Rightarrow> assignIds_loop ord q' i' h')"

declare assignIds_loop.simps [code]

definition assignIds :: "order \<Rightarrow> heap \<Rightarrow> heap option" where
  "assignIds ord h = assignIds_loop ord [Some root] 0 h"

definition buildTrieTree :: "order \<Rightarrow> string list \<Rightarrow> heap \<Rightarrow> heap option" where
  "buildTrieTree ord ws h =
     (case insert_all ws h of None \<Rightarrow> None | Some h' \<Rightarrow> assignIds ord h')"

subsection \<open>Failure and output links\<close>

text \<open>
  The \<^verbatim>\<open>while (failureLink)\<close> loop of \<^verbatim>\<open>connectFailureLink\<close>; \<open>fl\<close> is the local
  variable \<^verbatim>\<open>failureLink\<close>.
\<close>

partial_function (option) connect_loop :: "nat \<Rightarrow> ptr \<Rightarrow> heap \<Rightarrow> heap option" where
  "connect_loop node fl h =
     (case fl of None \<Rightarrow> Some h
      | Some f \<Rightarrow>
          if f < length h \<and> node < length h then
            if contains (children (h ! f)) (parentChar (h ! node)) then
              let (p, h1) = child_ref h f (parentChar (h ! node));
                  h2 = h1[node := (h1 ! node)\<lparr>failureLink := p\<rparr>]
              in case deref h2 (failureLink (h2 ! node)) of None \<Rightarrow> None
                 | Some t \<Rightarrow>
                     if isWord (h2 ! t)
                     then Some (h2[node := (h2 ! node)\<lparr>outputLink := failureLink (h2 ! node)\<rparr>])
                     else Some (h2[node := (h2 ! node)\<lparr>outputLink := outputLink (h2 ! t)\<rparr>])
            else connect_loop node (failureLink (h ! f)) h
          else None)"

declare connect_loop.simps [code]

definition connectFailureLink :: "nat \<Rightarrow> heap \<Rightarrow> heap option" where
  "connectFailureLink node h =
     (if node < length h then
        case parent (h ! node) of None \<Rightarrow> Some h
        | Some p \<Rightarrow>
            let h1 = h[node := (h ! node)\<lparr>failureLink := Some root\<rparr>]
            in if parent (h1 ! node) = Some root then Some h1
               else (case deref h1 (parent (h1 ! node)) of None \<Rightarrow> None
                     | Some p' \<Rightarrow> connect_loop node (failureLink (h1 ! p')) h1)
      else None)"

fun fill_level :: "order \<Rightarrow> nat \<Rightarrow> ptr list \<Rightarrow> heap \<Rightarrow> (ptr list \<times> heap) option" where
  "fill_level ord 0 q h = Some (q, h)"
| "fill_level ord (Suc sz) q h =
     (case q of [] \<Rightarrow> None
      | p # rest \<Rightarrow>
          (case deref h p of None \<Rightarrow> None
           | Some node \<Rightarrow>
               (case connectFailureLink node h of None \<Rightarrow> None
                | Some h' \<Rightarrow>
                    fill_level ord sz (rest @ map snd (iterate ord (children (h' ! node)))) h')))"

partial_function (option) fill_loop :: "order \<Rightarrow> ptr list \<Rightarrow> heap \<Rightarrow> heap option" where
  "fill_loop ord q h =
     (if q = [] then Some h
      else case fill_level ord (length q) q h of None \<Rightarrow> None
           | Some (q', h') \<Rightarrow> fill_loop ord q' h')"

declare fill_loop.simps [code]

definition fillFailureLinks :: "order \<Rightarrow> heap \<Rightarrow> heap option" where
  "fillFailureLinks ord h = fill_loop ord [Some root] h"

subsection \<open>The object and its constructor\<close>

record automaton =
  ac_text :: string
  ac_words :: "string list"
  ac_nodes :: heap

definition Aho_Corasick :: "order \<Rightarrow> string \<Rightarrow> string list \<Rightarrow> automaton option" where
  "Aho_Corasick ord bigText listOfWords =
     (case buildTrieTree ord listOfWords [new_Node] of None \<Rightarrow> None
      | Some h1 \<Rightarrow>
          (case fillFailureLinks ord h1 of None \<Rightarrow> None
           | Some h2 \<Rightarrow> Some \<lparr>ac_text = bigText, ac_words = listOfWords, ac_nodes = h2\<rparr>))"

subsection \<open>Scanning\<close>

type_synonym printed = "(string \<times> nat) list"

text \<open>The inner \<^verbatim>\<open>while\<close> loop that follows failure links on a mismatch.\<close>

partial_function (option) fail_loop :: "nat \<Rightarrow> char \<Rightarrow> heap \<Rightarrow> nat option" where
  "fail_loop node c h =
     (if node < length h then
        if failureLink (h ! node) \<noteq> None \<and> \<not> contains (children (h ! node)) c
        then (case failureLink (h ! node) of None \<Rightarrow> None | Some f \<Rightarrow> fail_loop f c h)
        else Some node
      else None)"

declare fail_loop.simps [code]

text \<open>The loop over the output links of the node reached.\<close>

partial_function (option) output_loop :: "nat \<Rightarrow> nat \<Rightarrow> heap \<Rightarrow> printed \<Rightarrow> printed option" where
  "output_loop cur i h out =
     (if cur < length h then
        case outputLink (h ! cur) of None \<Rightarrow> Some out
        | Some l \<Rightarrow>
            if l < length h then output_loop l i h (out @ [(pattern (h ! l), i)])
            else None
      else None)"

declare output_loop.simps [code]

text \<open>The part of the loop body after the transition: the two print statements.\<close>

definition report :: "nat \<Rightarrow> nat \<Rightarrow> heap \<Rightarrow> printed \<Rightarrow> (nat \<times> heap \<times> printed) option" where
  "report node i h out =
     (if node < length h then
        let out1 = (if isWord (h ! node) then out @ [(pattern (h ! node), i)] else out)
        in case output_loop node i h out1 of None \<Rightarrow> None
           | Some out2 \<Rightarrow> Some (node, h, out2)
      else None)"

text \<open>One iteration of the \<^verbatim>\<open>for\<close> loop of \<^verbatim>\<open>findPatterns\<close>, for \<^verbatim>\<open>text[i] = c\<close>.\<close>

definition scan_step :: "nat \<Rightarrow> char \<Rightarrow> nat \<Rightarrow> heap \<Rightarrow> printed \<Rightarrow> (nat \<times> heap \<times> printed) option" where
  "scan_step i c node h out =
     (if node < length h then
        if contains (children (h ! node)) c then
          let (p, h1) = child_ref h node c
          in case deref h1 p of None \<Rightarrow> None | Some n1 \<Rightarrow> report n1 i h1 out
        else
          (case fail_loop node c h of None \<Rightarrow> None
           | Some n1 \<Rightarrow>
               if \<not> contains (children (h ! n1)) c then Some (n1, h, out)
               else
                 let (p, h1) = child_ref h n1 c
                 in case deref h1 p of None \<Rightarrow> None | Some n2 \<Rightarrow> report n2 i h1 out)
      else None)"

text \<open>
  The comparison \<^verbatim>\<open>i < text.size()\<close> and the access \<^verbatim>\<open>text[i]\<close> convert the \<^verbatim>\<open>int\<close> to
  \<^verbatim>\<open>size_t\<close>: the two's-complement value modulo \<open>2^64\<close>, so that a negative index becomes
  a number of at least \<open>2^64 - 2^31\<close>.
\<close>

definition to_size_t :: "32 word \<Rightarrow> nat" where
  "to_size_t i = nat (sint i mod 2 ^ 64)"

text \<open>\<^verbatim>\<open>text.size()\<close>, a \<^verbatim>\<open>size_t\<close>: a \<^verbatim>\<open>std::string\<close> holds fewer than \<open>2^64\<close> characters.\<close>

definition size_of :: "string \<Rightarrow> nat" where
  "size_of s = length s mod 2 ^ 64"

text \<open>
  The \<^verbatim>\<open>for\<close> loop of \<^verbatim>\<open>findPatterns\<close>, from the test of its condition on; \<^verbatim>\<open>++i\<close> is
  the addition of the 32-bit word, which wraps from \<open>2^31 - 1\<close> to \<open>- 2^31\<close>.
\<close>

partial_function (option) scan_loop ::
    "string \<Rightarrow> 32 word \<Rightarrow> nat \<Rightarrow> heap \<Rightarrow> printed \<Rightarrow> (nat \<times> heap \<times> printed) option" where
  "scan_loop txt i node h out =
     (if to_size_t i < size_of txt then
        Option.bind (scan_step (to_size_t i) (txt ! to_size_t i) node h out)
          (\<lambda>r. scan_loop txt (i + 1) (fst r) (fst (snd r)) (snd (snd r)))
      else Some (node, h, out))"

declare scan_loop.simps [code]

definition findPatterns :: "automaton \<Rightarrow> (automaton \<times> printed) option" where
  "findPatterns ac =
     (case scan_loop (ac_text ac) 0 root (ac_nodes ac) [] of None \<Rightarrow> None
      | Some (node, h, out) \<Rightarrow> Some (ac\<lparr>ac_nodes := h\<rparr>, out))"

section \<open>Specification-level notions\<close>

text \<open>
  The string a node stands for: the edge symbols on the way from the root to the node,
  read off the parent pointers.  In every memory the constructor builds a parent is
  allocated before its children, so the guard \<open>p < a\<close> never fails there; it makes the
  definition total on every memory.
\<close>

function path :: "heap \<Rightarrow> nat \<Rightarrow> string" where
  "path h a =
     (case parent (h ! a) of None \<Rightarrow> []
      | Some p \<Rightarrow> if p < a then path h p @ [parentChar (h ! a)] else [])"
  by pat_completeness auto

termination
  by (relation "measure snd") auto

declare path.simps [simp del]

text \<open>
  Following the child edges from a node along a string; \<open>None\<close> when an edge is missing.
\<close>

fun walk :: "heap \<Rightarrow> nat \<Rightarrow> string \<Rightarrow> nat option" where
  "walk h a [] = Some a"
| "walk h a (c # s) =
     (case map_of (children (h ! a)) c of
        Some (Some b) \<Rightarrow> walk h b s
      | _ \<Rightarrow> None)"

text \<open>
  A memory is a well-formed trie when the root has no parent, the keys of every child map
  are distinct, every child edge leads to a later allocated node whose parent pointer and
  edge symbol point back, and every node but the root is a child of its parent.
\<close>

definition wf_trie :: "heap \<Rightarrow> bool" where
  "wf_trie h \<longleftrightarrow>
     0 < length h \<and> parent (h ! 0) = None \<and>
     (\<forall>a < length h. distinct (map fst (children (h ! a)))) \<and>
     (\<forall>a < length h. \<forall>c p. map_of (children (h ! a)) c = Some p \<longrightarrow>
        (\<exists>b. p = Some b \<and> a < b \<and> b < length h \<and>
             parent (h ! b) = Some a \<and> parentChar (h ! b) = c)) \<and>
     (\<forall>b < length h. 0 < b \<longrightarrow>
        (\<exists>a. parent (h ! b) = Some a \<and> a < length h \<and>
             map_of (children (h ! a)) (parentChar (h ! b)) = Some (Some b)))"

text \<open>
  The memory after \<^verbatim>\<open>insert\<close> has created a new child of \<open>node\<close> for the symbol \<open>c\<close>.
\<close>

definition add_child :: "heap \<Rightarrow> nat \<Rightarrow> char \<Rightarrow> heap" where
  "add_child h node c =
     h[node := (h ! node)\<lparr>children := children (h ! node) @ [(c, Some (length h))]\<rparr>]
       @ [new_Node\<lparr>parent := Some node, parentChar := c\<rparr>]"

text \<open>
  \<open>h'\<close> extends \<open>h\<close>: the nodes of \<open>h\<close> are still there, with the same parent, word and link
  fields.
\<close>

definition extends :: "heap \<Rightarrow> heap \<Rightarrow> bool" where
  "extends h h' \<longleftrightarrow> length h \<le> length h' \<and>
     (\<forall>a < length h. parent (h' ! a) = parent (h ! a) \<and> parentChar (h' ! a) = parentChar (h ! a) \<and>
        isWord (h' ! a) = isWord (h ! a) \<and> pattern (h' ! a) = pattern (h ! a) \<and>
        failureLink (h' ! a) = failureLink (h ! a) \<and> outputLink (h' ! a) = outputLink (h ! a))"

text \<open>
  A node as \<^verbatim>\<open>insert\<close> creates it: no word, no links.
\<close>

definition fresh :: "Node \<Rightarrow> bool" where
  "fresh n \<longleftrightarrow> \<not> isWord n \<and> failureLink n = None \<and> outputLink n = None"

text \<open>
  The memory after the patterns of the set \<open>W\<close> have been inserted: a well-formed trie whose
  nodes stand for the prefixes of the patterns, whose word nodes stand for the patterns
  and store them, and where no link is set yet.
\<close>

definition trie_of :: "string set \<Rightarrow> heap \<Rightarrow> bool" where
  "trie_of W h \<longleftrightarrow> wf_trie h \<and>
     (\<forall>a < length h.
        (0 < a \<longrightarrow> (\<exists>w \<in> W. prefix (path h a) w)) \<and>
        (isWord (h ! a) \<longleftrightarrow> path h a \<in> W) \<and>
        (isWord (h ! a) \<longrightarrow> pattern (h ! a) = path h a) \<and>
        failureLink (h ! a) = None \<and> outputLink (h ! a) = None) \<and>
     (\<forall>w \<in> W. \<exists>a < length h. path h a = w)"

text \<open>
  Two memories with the same trie: they differ at most in links and ids.
\<close>

definition same_trie :: "heap \<Rightarrow> heap \<Rightarrow> bool" where
  "same_trie h h' \<longleftrightarrow> length h' = length h \<and>
     (\<forall>a < length h. children (h' ! a) = children (h ! a) \<and> parent (h' ! a) = parent (h ! a) \<and>
        parentChar (h' ! a) = parentChar (h ! a) \<and> isWord (h' ! a) = isWord (h ! a) \<and>
        pattern (h' ! a) = pattern (h ! a))"

text \<open>
  Two memories with the same failure and output links.
\<close>

definition same_links :: "heap \<Rightarrow> heap \<Rightarrow> bool" where
  "same_links h h' \<longleftrightarrow>
     (\<forall>a < length h. failureLink (h' ! a) = failureLink (h ! a) \<and>
        outputLink (h' ! a) = outputLink (h ! a))"

text \<open>
  The pointers a breadth-first loop pushes for a node, in the order of iteration.
\<close>

definition kids :: "order \<Rightarrow> heap \<Rightarrow> nat \<Rightarrow> ptr list" where
  "kids ord h a = map snd (iterate ord (children (h ! a)))"

text \<open>
  The nodes at distance \<open>d\<close> from the root.
\<close>

text \<open>
  The nodes at distance \<open>d\<close> from the root.
\<close>

definition level_nodes :: "heap \<Rightarrow> nat \<Rightarrow> nat set" where
  "level_nodes h d = {a. a < length h \<and> length (path h a) = d}"

text \<open>
  On strings: the longest suffix of \<open>t\<close> that satisfies \<open>P\<close> (the empty string if none does).
\<close>

fun lsuf :: "(string \<Rightarrow> bool) \<Rightarrow> string \<Rightarrow> string" where
  "lsuf P [] = []"
| "lsuf P (x # t) = (if P (x # t) then x # t else lsuf P t)"

text \<open>
  The longest suffix \<open>y\<close> of \<open>t\<close> such that \<open>y\<close> followed by \<open>c\<close> satisfies \<open>P\<close>, if there is one.
\<close>

fun lsufc :: "(string \<Rightarrow> bool) \<Rightarrow> char \<Rightarrow> string \<Rightarrow> string option" where
  "lsufc P c [] = (if P [c] then Some [] else None)"
| "lsufc P c (x # t) = (if P ((x # t) @ [c]) then Some (x # t) else lsufc P c t)"

text \<open>
  The longest suffix of \<open>t\<close> that satisfies \<open>W\<close>, if there is one.
\<close>

fun osuf :: "(string \<Rightarrow> bool) \<Rightarrow> string \<Rightarrow> string option" where
  "osuf W [] = (if W [] then Some [] else None)"
| "osuf W (x # t) = (if W (x # t) then Some (x # t) else osuf W t)"

text \<open>
  The non-empty suffixes of \<open>t\<close> that satisfy \<open>W\<close>, the longest first.
\<close>

fun wsufs :: "(string \<Rightarrow> bool) \<Rightarrow> string \<Rightarrow> string list" where
  "wsufs W [] = []"
| "wsufs W (x # t) = (if W (x # t) then (x # t) # wsufs W t else wsufs W t)"

text \<open>
  A set of strings that holds the empty string and every prefix of its members.
\<close>

definition prefix_closed :: "(string \<Rightarrow> bool) \<Rightarrow> bool" where
  "prefix_closed P \<longleftrightarrow> P [] \<and> (\<forall>s c. P (s @ [c]) \<longrightarrow> P s)"

text \<open>
  The strings that are nodes of the trie.
\<close>

definition present :: "heap \<Rightarrow> string \<Rightarrow> bool" where
  "present h s = (walk h root s \<noteq> None)"

text \<open>
  The strings whose node is marked as a word.
\<close>

definition is_word :: "heap \<Rightarrow> string \<Rightarrow> bool" where
  "is_word h s = (case walk h root s of None \<Rightarrow> False | Some a \<Rightarrow> isWord (h ! a))"

text \<open>
  What the failure link of a node has to be: the node of the longest proper suffix of its
  string that is a node of the trie.
\<close>

definition fail_of :: "heap \<Rightarrow> nat \<Rightarrow> ptr" where
  "fail_of h a = walk h root (lsuf (present h) (tl (path h a)))"

text \<open>
  What the output link of a node has to be: the node of the longest proper suffix of its
  string that is a word, null if there is none.
\<close>

definition out_of :: "heap \<Rightarrow> nat \<Rightarrow> ptr" where
  "out_of h a =
     (case osuf (is_word h) (tl (path h a)) of None \<Rightarrow> None | Some s \<Rightarrow> walk h root s)"

text \<open>
  A node whose links are resolved.  The root keeps null links.  Any other node has the
  failure link \<open>fail_of\<close>; its output link, if set, points to a node nearer to the root; and
  when the root is not a word (no empty pattern) its output link is \<open>out_of\<close>.
\<close>

definition linked :: "heap \<Rightarrow> nat \<Rightarrow> bool" where
  "linked h a \<longleftrightarrow>
     (if a = root then failureLink (h ! a) = None \<and> outputLink (h ! a) = None
      else failureLink (h ! a) = fail_of h a \<and>
           (\<forall>l. outputLink (h ! a) = Some l \<longrightarrow> l < length h \<and> length (path h l) < length (path h a)) \<and>
           (\<not> isWord (h ! root) \<longrightarrow> outputLink (h ! a) = out_of h a))"

text \<open>
  The invariant of the breadth-first pass while it works on level \<open>d\<close>: the levels above
  are resolved, and a node is either resolved or still has a null output link.
\<close>

definition link_inv :: "nat \<Rightarrow> heap \<Rightarrow> bool" where
  "link_inv d h \<longleftrightarrow> wf_trie h \<and> linked h root \<and>
     (\<forall>b < length h. (length (path h b) < d \<longrightarrow> linked h b) \<and>
        (outputLink (h ! b) = None \<or> linked h b))"

text \<open>
  A well-formed trie all of whose nodes are resolved.
\<close>

definition all_linked :: "heap \<Rightarrow> bool" where
  "all_linked h \<longleftrightarrow> wf_trie h \<and> (\<forall>b < length h. linked h b)"

text \<open>
  No empty pattern, and every word node stores its own string as its pattern.
\<close>

definition good :: "heap \<Rightarrow> bool" where
  "good h \<longleftrightarrow> \<not> isWord (h ! root) \<and> (\<forall>b < length h. isWord (h ! b) \<longrightarrow> pattern (h ! b) = path h b)"

text \<open>
  The loop of \<^verbatim>\<open>findPatterns\<close> as it runs while the index does not overflow: one
  iteration for each character of a list, the position counted in natural numbers.
\<close>

fun scan_chars :: "nat \<Rightarrow> string \<Rightarrow> nat \<Rightarrow> heap \<Rightarrow> printed \<Rightarrow> (nat \<times> heap \<times> printed) option" where
  "scan_chars i [] node h out = Some (node, h, out)"
| "scan_chars i (c # cs) node h out =
     (case scan_step i c node h out of None \<Rightarrow> None
      | Some (node', h', out') \<Rightarrow> scan_chars (i + 1) cs node' h' out')"

text \<open>
  What the constructor establishes for the pattern set \<open>W\<close>.
\<close>

definition ac_inv :: "string set \<Rightarrow> heap \<Rightarrow> bool" where
  "ac_inv W h \<longleftrightarrow> all_linked h \<and>
     (\<forall>a < length h.
        (0 < a \<longrightarrow> (\<exists>w \<in> W. prefix (path h a) w)) \<and>
        (isWord (h ! a) \<longleftrightarrow> path h a \<in> W) \<and>
        (isWord (h ! a) \<longrightarrow> pattern (h ! a) = path h a)) \<and>
     (\<forall>w \<in> W. \<exists>a < length h. path h a = w)"

text \<open>
  The printed sequence, as a function of the pattern set and the text alone: position by
  position, the patterns ending there, longest first.
\<close>

definition scan_reference :: "(string \<Rightarrow> bool) \<Rightarrow> string \<Rightarrow> printed" where
  "scan_reference W T =
     concat (map (\<lambda>j. map (\<lambda>w. (w, j)) (wsufs W (take (Suc j) T))) [0..<length T])"



text \<open>
  A printed match carries the index of its last character; the start index is
  \<open>endIndex - length(pattern) + 1\<close>.
\<close>

definition start_index :: "string \<times> nat \<Rightarrow> string \<times> int" where
  "start_index m = (fst m, int (snd m) - int (length (fst m)) + 1)"

text \<open>
  The deduplicated pattern list: every pattern once, at the place of its first occurrence.
  \<open>seen\<close> holds the patterns met so far.
\<close>

fun dedup_seen :: "string list \<Rightarrow> string list \<Rightarrow> string list" where
  "dedup_seen seen [] = []"
| "dedup_seen seen (w # ws) =
     (if w \<in> set seen then dedup_seen seen ws else w # dedup_seen (seen @ [w]) ws)"

definition dedup :: "string list \<Rightarrow> string list" where
  "dedup ws = dedup_seen [] ws"

text \<open>
  The depth of a node: the number of parent links between it and the node without parent.
\<close>

partial_function (option) depth :: "heap \<Rightarrow> nat \<Rightarrow> nat option" where
  "depth h a =
     (if a < length h then
        (case parent (h ! a) of None \<Rightarrow> Some 0
         | Some p \<Rightarrow> Option.bind (depth h p) (\<lambda>d. Some (Suc d)))
      else None)"

declare depth.simps [code]

text \<open>
  The reference recurrence of the specification for failure links (its section 4.2),
  written from the specification's words: the cursor advances along failure links while it
  is not the root and has no child for the symbol; the failure link is the cursor's child
  for the symbol if there is one, and the root otherwise.
\<close>

partial_function (option) ref_cursor :: "heap \<Rightarrow> nat \<Rightarrow> char \<Rightarrow> nat option" where
  "ref_cursor h cur c =
     (if cur < length h then
        if cur \<noteq> root \<and> \<not> contains (children (h ! cur)) c
        then (case failureLink (h ! cur) of None \<Rightarrow> None | Some f \<Rightarrow> ref_cursor h f c)
        else Some cur
      else None)"

declare ref_cursor.simps [code]

definition ref_failureLink :: "heap \<Rightarrow> nat \<Rightarrow> ptr option" where
  "ref_failureLink h n =
     (case parent (h ! n) of None \<Rightarrow> None
      | Some p \<Rightarrow>
          (case deref h (failureLink (h ! p)) of None \<Rightarrow> None
           | Some f \<Rightarrow>
               (case ref_cursor h f (parentChar (h ! n)) of None \<Rightarrow> None
                | Some cur \<Rightarrow>
                    Some (case map_of (children (h ! cur)) (parentChar (h ! n)) of
                            Some child \<Rightarrow> child
                          | None \<Rightarrow> Some root))))"

text \<open>
  The two loops that walk failure links, with a counter: \<open>k\<close> bounds the number of times
  the loop body may run, and the result is \<open>None\<close> when the bound is used up before the
  loop ends.  Apart from the counter they are \<open>fail_loop\<close> and \<open>connect_loop\<close>.
\<close>

fun fail_loop_bounded :: "nat \<Rightarrow> nat \<Rightarrow> char \<Rightarrow> heap \<Rightarrow> nat option" where
  "fail_loop_bounded k node c h =
     (if node < length h then
        if failureLink (h ! node) \<noteq> None \<and> \<not> contains (children (h ! node)) c
        then (case k of 0 \<Rightarrow> None
              | Suc k' \<Rightarrow>
                  (case failureLink (h ! node) of None \<Rightarrow> None
                   | Some f \<Rightarrow> fail_loop_bounded k' f c h))
        else Some node
      else None)"

fun connect_loop_bounded :: "nat \<Rightarrow> nat \<Rightarrow> ptr \<Rightarrow> heap \<Rightarrow> heap option" where
  "connect_loop_bounded k node fl h =
     (case fl of None \<Rightarrow> Some h
      | Some f \<Rightarrow>
          (case k of 0 \<Rightarrow> None
           | Suc k' \<Rightarrow>
               if f < length h \<and> node < length h then
                 if contains (children (h ! f)) (parentChar (h ! node)) then
                   let (p, h1) = child_ref h f (parentChar (h ! node));
                       h2 = h1[node := (h1 ! node)\<lparr>failureLink := p\<rparr>]
                   in case deref h2 (failureLink (h2 ! node)) of None \<Rightarrow> None
                      | Some t \<Rightarrow>
                          if isWord (h2 ! t)
                          then Some (h2[node := (h2 ! node)\<lparr>outputLink := failureLink (h2 ! node)\<rparr>])
                          else Some (h2[node := (h2 ! node)\<lparr>outputLink := outputLink (h2 ! t)\<rparr>])
                 else connect_loop_bounded k' node (failureLink (h ! f)) h
               else None))"

declare fail_loop_bounded.simps [simp del]

declare connect_loop_bounded.simps [simp del]

text \<open>A printed match as the triple (pattern, start index, end index).\<close>

definition match_of :: "string \<times> nat \<Rightarrow> string \<times> int \<times> int" where
  "match_of m = (fst m, snd (start_index m), int (snd m))"

section \<open>Verification\<close>

subsection \<open>Paths and well-formed tries\<close>

lemma wf_trie_child:
  assumes "wf_trie h" "a < length h" "map_of (children (h ! a)) c = Some p"
  obtains b where "p = Some b" "a < b" "b < length h" "parent (h ! b) = Some a"
    "parentChar (h ! b) = c"
  using assms unfolding wf_trie_def by blast

lemma wf_trie_parent:
  assumes "wf_trie h" "b < length h" "0 < b"
  obtains a where "parent (h ! b) = Some a" "a < b" "a < length h"
    "map_of (children (h ! a)) (parentChar (h ! b)) = Some (Some b)"
proof -
  from assms obtain a where a: "parent (h ! b) = Some a" "a < length h"
    "map_of (children (h ! a)) (parentChar (h ! b)) = Some (Some b)"
    unfolding wf_trie_def by blast
  from wf_trie_child[OF assms(1) a(2) a(3)] have "a < b" by auto
  with a that show thesis by blast
qed

lemma wf_trie_root: "wf_trie h \<Longrightarrow> 0 < length h \<and> parent (h ! 0) = None"
  unfolding wf_trie_def by blast

lemma wf_trie_distinct: "wf_trie h \<Longrightarrow> a < length h \<Longrightarrow> distinct (map fst (children (h ! a)))"
  unfolding wf_trie_def by blast

lemma path_root: "wf_trie h \<Longrightarrow> path h 0 = []"
  by (simp add: path.simps[of h 0] wf_trie_root)

lemma path_child:
  assumes "wf_trie h" "a < length h" "map_of (children (h ! a)) c = Some (Some b)"
  shows "path h b = path h a @ [c]" "b < length h" "a < b"
proof -
  from wf_trie_child[OF assms] have b: "a < b" "b < length h" "parent (h ! b) = Some a"
    "parentChar (h ! b) = c" by auto
  then show "path h b = path h a @ [c]" by (simp add: path.simps[of h b])
  from b show "b < length h" "a < b" by auto
qed

lemma path_nonroot:
  assumes "wf_trie h" "b < length h" "0 < b"
  obtains a where "parent (h ! b) = Some a" "a < b" "a < length h"
    "map_of (children (h ! a)) (parentChar (h ! b)) = Some (Some b)"
    "path h b = path h a @ [parentChar (h ! b)]"
proof -
  from wf_trie_parent[OF assms] obtain a where a: "parent (h ! b) = Some a" "a < b" "a < length h"
    "map_of (children (h ! a)) (parentChar (h ! b)) = Some (Some b)" by blast
  then have "path h b = path h a @ [parentChar (h ! b)]" by (simp add: path.simps[of h b])
  with a that show thesis by blast
qed

lemma path_eq_Nil: 
  assumes "wf_trie h" "a < length h"
  shows "path h a = [] \<longleftrightarrow> a = 0"
proof (cases "a = 0")
  case True then show ?thesis using path_root[OF assms(1)] by simp
next
  case False
  then have "0 < a" by simp
  from path_nonroot[OF assms this] show ?thesis using False by fastforce
qed

lemma walk_append: "walk h a (s @ t) = (case walk h a s of None \<Rightarrow> None | Some b \<Rightarrow> walk h b t)"
  by (induction s arbitrary: a) (auto split: option.splits)

lemma walk_path_from:
  assumes "wf_trie h"
  shows "a < length h \<Longrightarrow> walk h a s = Some b \<Longrightarrow> b < length h \<and> path h b = path h a @ s"
proof (induction s arbitrary: a)
  case Nil then show ?case by simp
next
  case (Cons c s)
  from Cons.prems(2) obtain a' where a': "map_of (children (h ! a)) c = Some (Some a')"
    "walk h a' s = Some b" by (auto split: option.splits)
  from path_child[OF assms Cons.prems(1) a'(1)] have "path h a' = path h a @ [c]" "a' < length h"
    by auto
  with Cons.IH[OF this(2) a'(2)] show ?case by simp
qed

lemma walk_path:
  assumes "wf_trie h" "a < length h"
  shows "walk h 0 (path h a) = Some a"
  using assms(2)
proof (induction a rule: less_induct)
  case (less a)
  show ?case
  proof (cases "a = 0")
    case True then show ?thesis using path_root[OF assms(1)] by simp
  next
    case False
    then have "0 < a" by simp
    from path_nonroot[OF assms(1) less.prems this] obtain p where p: "parent (h ! a) = Some p"
      "p < a" "p < length h" "map_of (children (h ! p)) (parentChar (h ! a)) = Some (Some a)"
      "path h a = path h p @ [parentChar (h ! a)]" by blast
    from less.IH[OF p(2) p(3)] p(4,5) show ?thesis by (simp add: walk_append)
  qed
qed

lemma walk_iff:
  assumes "wf_trie h"
  shows "walk h 0 s = Some a \<longleftrightarrow> a < length h \<and> path h a = s"
proof
  assume "walk h 0 s = Some a"
  from walk_path_from[OF assms _ this] wf_trie_root[OF assms] path_root[OF assms]
  show "a < length h \<and> path h a = s" by simp
next
  assume "a < length h \<and> path h a = s"
  then show "walk h 0 s = Some a" using walk_path[OF assms] by blast
qed

lemma path_inj:
  assumes "wf_trie h" "a < length h" "b < length h" "path h a = path h b"
  shows "a = b"
proof -
  have "Some a = walk h 0 (path h a)" using walk_path[OF assms(1,2)] by simp
  also have "\<dots> = Some b" using walk_path[OF assms(1,3)] assms(4) by simp
  finally show ?thesis by simp
qed

lemma length_path_le: 
  assumes "wf_trie h" 
  shows "a < length h \<Longrightarrow> length (path h a) \<le> a"
proof (induction a rule: less_induct)
  case (less a)
  show ?case
  proof (cases "a = 0")
    case True then show ?thesis using path_root[OF assms(1)] by simp
  next
    case False
    then have "0 < a" by simp
    from path_nonroot[OF assms(1) less.prems this] obtain p where p: 
      "p < a" "p < length h" "path h a = path h p @ [parentChar (h ! a)]" by blast
    from less.IH[OF p(1) p(2)] p show ?thesis by simp
  qed
qed

subsection \<open>One step of insert\<close>

lemma contains_iff: "contains m c \<longleftrightarrow> (\<exists>p. map_of m c = Some p)"
  by (auto simp: contains_def)

lemma map_of_snoc:
  "map_of (m @ [(k, v)]) x =
     (case map_of m x of Some y \<Rightarrow> Some y | None \<Rightarrow> if x = k then Some v else None)"
  by (simp add: map_add_def split: option.splits)

lemma child_ref_present:
  "map_of (children (h ! a)) c = Some p \<Longrightarrow> child_ref h a c = (p, h)"
  by (simp add: child_ref_def)

lemma insert_step_old:
  assumes "wf_trie h" "node < length h" "map_of (children (h ! node)) c = Some (Some b)"
  shows "insert_step node c h = Some (b, h)"
proof -
  from wf_trie_child[OF assms] have b: "b < length h" "parent (h ! b) = Some node"
    "parentChar (h ! b) = c" by auto
  have 1: "h[b := (h ! b)\<lparr>parent := Some node\<rparr>] = h"
    using b by (metis Node.surjective Node.update_convs(2) list_update_id)
  have 2: "h[b := (h ! b)\<lparr>parentChar := c\<rparr>] = h"
    using b by (metis Node.surjective Node.update_convs(6) list_update_id)
  show ?thesis
    using assms(2,3) b(1)
    by (simp add: insert_step_def contains_iff child_ref_present deref_def 1 2)
qed

lemma insert_step_new:
  assumes "node < length h" "map_of (children (h ! node)) c = None"
  shows "insert_step node c h = Some (length h, add_child h node c)"
proof -
  let ?h1 = "child_assign (h @ [new_Node]) node c (Some (length h))"
  have h1: "?h1 = h[node := (h ! node)\<lparr>children := children (h ! node) @ [(c, Some (length h))]\<rparr>] @ [new_Node]"
    using assms by (simp add: child_assign_def contains_iff nth_append list_update_append)
  have m: "map_of (children (?h1 ! node)) c = Some (Some (length h))"
    using assms by (simp add: h1 nth_append map_add_def)
  have r1: "child_ref ?h1 node c = (Some (length h), ?h1)"
    by (rule child_ref_present[OF m])
  let ?h3 = "?h1[length h := (?h1 ! length h)\<lparr>parent := Some node\<rparr>]"
  have h3: "?h3 = h[node := (h ! node)\<lparr>children := children (h ! node) @ [(c, Some (length h))]\<rparr>] @ [new_Node\<lparr>parent := Some node\<rparr>]"
    by (simp add: h1 nth_append list_update_append)
  have m3: "map_of (children (?h3 ! node)) c = Some (Some (length h))"
    using assms by (simp add: h1 nth_append map_add_def)
  have r3: "child_ref ?h3 node c = (Some (length h), ?h3)"
    by (rule child_ref_present[OF m3])
  let ?h5 = "?h3[length h := (?h3 ! length h)\<lparr>parentChar := c\<rparr>]"
  have h5: "?h5 = add_child h node c"
    by (simp add: h3 nth_append list_update_append add_child_def)
  have m5: "map_of (children (?h5 ! node)) c = Some (Some (length h))"
    using assms by (simp add: h1 nth_append map_add_def)
  have r5: "child_ref ?h5 node c = (Some (length h), ?h5)"
    by (rule child_ref_present[OF m5])
  have l1: "length ?h1 = Suc (length h)" by (simp add: h1)
  have c: "\<not> contains (children (h ! node)) c" using assms by (simp add: contains_iff)
  show ?thesis
    unfolding insert_step_def Let_def
    using assms(1) c
    apply (simp only: if_True not_False_eq_True r1 prod.case deref_def option.case l1 lessI)
    apply (simp only: r3 prod.case length_list_update l1 lessI if_True option.case)
    apply (simp only: h5)
    apply (simp only: r5[unfolded h5] prod.case option.case)
    apply (simp add: add_child_def)
    done
qed

subsection \<open>The insertion loop\<close>

lemma length_add_child [simp]: "length (add_child h node c) = Suc (length h)"
  by (simp add: add_child_def)

lemma add_child_new [simp]:
  "add_child h node c ! length h = new_Node\<lparr>parent := Some node, parentChar := c\<rparr>"
  by (simp add: add_child_def nth_append)

lemma add_child_old:
  "a < length h \<Longrightarrow> add_child h node c ! a =
     (if a = node then (h ! a)\<lparr>children := children (h ! a) @ [(c, Some (length h))]\<rparr> else h ! a)"
  by (simp add: add_child_def nth_append)

lemma path_cong:
  assumes "\<And>b. b \<le> a \<Longrightarrow> parent (h' ! b) = parent (h ! b) \<and> parentChar (h' ! b) = parentChar (h ! b)"
  shows "path h' a = path h a"
  using assms
proof (induction a rule: less_induct)
  case (less a)
  have eq: "parent (h' ! a) = parent (h ! a)" "parentChar (h' ! a) = parentChar (h ! a)"
    using less.prems[of a] by auto
  show ?case
  proof (cases "parent (h ! a)")
    case None
    then show ?thesis using eq by (simp add: path.simps[of h a] path.simps[of h' a])
  next
    case (Some p)
    show ?thesis
    proof (cases "p < a")
      case True
      have "path h' p = path h p"
        by (rule less.IH[OF True]) (use less.prems True in auto)
      then show ?thesis using eq Some True by (simp add: path.simps[of h a] path.simps[of h' a])
    next
      case False
      then show ?thesis using eq Some by (simp add: path.simps[of h a] path.simps[of h' a])
    qed
  qed
qed

lemma extends_refl: "extends h h"
  by (simp add: extends_def)

lemma extends_trans: "extends h h1 \<Longrightarrow> extends h1 h2 \<Longrightarrow> extends h h2"
  by (auto simp: extends_def)

lemma extends_path: "extends h h' \<Longrightarrow> a < length h \<Longrightarrow> path h' a = path h a"
  by (rule path_cong) (auto simp: extends_def)

lemma extends_add_child: "node < length h \<Longrightarrow> extends h (add_child h node c)"
  by (auto simp: extends_def add_child_old)

lemma wf_trie_add_child:
  assumes wf: "wf_trie h" and node: "node < length h"
    and none: "map_of (children (h ! node)) c = None"
  shows "wf_trie (add_child h node c)"
  unfolding wf_trie_def
proof (intro conjI allI impI)
  let ?h = "add_child h node c"
  show "0 < length ?h" by simp
  show "parent (?h ! 0) = None"
    using wf_trie_root[OF wf] by (simp add: add_child_old)
  {
    fix a assume a: "a < length ?h"
    show "distinct (map fst (children (?h ! a)))"
    proof (cases "a = length h")
      case True
      then show ?thesis by (simp add: new_Node_def)
    next
      case False
      with a have al: "a < length h" by simp
      have "c \<notin> fst ` set (children (h ! node))"
        using none by (simp add: map_of_eq_None_iff)
      then show ?thesis using wf_trie_distinct[OF wf al] al by (auto simp: add_child_old)
    qed
  }
  {
    fix a c' p
    assume a: "a < length ?h" and m: "map_of (children (?h ! a)) c' = Some p"
    show "\<exists>b. p = Some b \<and> a < b \<and> b < length ?h \<and> parent (?h ! b) = Some a \<and> parentChar (?h ! b) = c'"
    proof (cases "a = length h")
      case True
      then show ?thesis using m by (simp add: new_Node_def)
    next
      case False
      with a have al: "a < length h" by simp
      show ?thesis
      proof (cases "a = node \<and> c' = c")
        case True
        then have "p = Some (length h)"
          using m al none by (simp add: add_child_old map_add_def)
        then show ?thesis using True al by simp
      next
        case False
        then have "map_of (children (h ! a)) c' = Some p"
          using m al by (auto simp: add_child_old map_add_def split: if_splits option.splits)
        from wf_trie_child[OF wf al this] obtain b where b: "p = Some b" "a < b" "b < length h"
          "parent (h ! b) = Some a" "parentChar (h ! b) = c'" by blast
        then show ?thesis by (auto simp: add_child_old)
      qed
    qed
  }
  {
    fix b
    assume b: "b < length ?h" and pos: "0 < b"
    show "\<exists>a. parent (?h ! b) = Some a \<and> a < length ?h \<and>
            map_of (children (?h ! a)) (parentChar (?h ! b)) = Some (Some b)"
    proof (cases "b = length h")
      case True
      then show ?thesis using node none by (simp add: add_child_old map_add_def)
    next
      case False
      with b have bl: "b < length h" by simp
      from wf_trie_parent[OF wf bl pos] obtain a where a: "parent (h ! b) = Some a" "a < length h"
        "map_of (children (h ! a)) (parentChar (h ! b)) = Some (Some b)" by blast
      then show ?thesis using bl by (auto simp: add_child_old map_add_def)
    qed
  }
qed

lemma path_add_child_new:
  assumes "node < length h"
  shows "path (add_child h node c) (length h) = path h node @ [c]"
proof -
  have "path (add_child h node c) node = path h node"
    by (rule extends_path[OF extends_add_child[OF assms] assms])
  then show ?thesis using assms by (simp add: path.simps[of _ "length h"])
qed

lemma insert_loop_spec:
  assumes "wf_trie h" "node < length h"
  shows "\<exists>b h'. insert_loop node s h = Some (b, h') \<and> wf_trie h' \<and> b < length h' \<and>
           extends h h' \<and> path h' b = path h node @ s \<and>
           (\<forall>a. length h \<le> a \<longrightarrow> a < length h' \<longrightarrow>
              fresh (h' ! a) \<and> (\<exists>t. t \<noteq> [] \<and> prefix t s \<and> path h' a = path h node @ t))"
  using assms
proof (induction s arbitrary: node h)
  case Nil
  then show ?case by (simp add: extends_refl)
next
  case (Cons c s)
  show ?case
  proof (cases "map_of (children (h ! node)) c")
    case None
    let ?h1 = "add_child h node c"
    have step: "insert_step node c h = Some (length h, ?h1)"
      by (rule insert_step_new[OF Cons.prems(2) None])
    have wf1: "wf_trie ?h1" by (rule wf_trie_add_child[OF Cons.prems None])
    from Cons.IH[OF wf1, of "length h"] obtain b h' where
      r: "insert_loop (length h) s ?h1 = Some (b, h')" "wf_trie h'" "b < length h'"
        "extends ?h1 h'" "path h' b = path ?h1 (length h) @ s"
        and new: "\<And>a. length ?h1 \<le> a \<Longrightarrow> a < length h' \<Longrightarrow>
              fresh (h' ! a) \<and> (\<exists>t. t \<noteq> [] \<and> prefix t s \<and> path h' a = path ?h1 (length h) @ t)"
      by auto
    have ext: "extends h h'"
      by (rule extends_trans[OF extends_add_child[OF Cons.prems(2)] r(4)])
    have pn: "path ?h1 (length h) = path h node @ [c]"
      by (rule path_add_child_new[OF Cons.prems(2)])
    have "fresh (h' ! a) \<and> (\<exists>t. t \<noteq> [] \<and> prefix t (c # s) \<and> path h' a = path h node @ t)"
      if a: "length h \<le> a" "a < length h'" for a
    proof (cases "a = length h")
      case True
      have "path h' a = path ?h1 a" using extends_path[OF r(4), of a] True by simp
      moreover have "fresh (h' ! a)"
        using r(4) True by (simp add: extends_def fresh_def new_Node_def)
      ultimately show ?thesis using pn True by (intro conjI exI[of _ "[c]"]) auto
    next
      case False
      with a have "length ?h1 \<le> a" by simp
      from new[OF this a(2)] obtain t where t: "fresh (h' ! a)" "t \<noteq> []" "prefix t s"
        "path h' a = path ?h1 (length h) @ t" by blast
      then show ?thesis using pn by (intro conjI exI[of _ "c # t"]) auto
    qed
    then show ?thesis using step r ext pn by auto
  next
    case (Some p)
    from wf_trie_child[OF Cons.prems Some] obtain b0 where b0: "p = Some b0" "b0 < length h" by blast
    have step: "insert_step node c h = Some (b0, h)"
      by (rule insert_step_old[OF Cons.prems Some[unfolded b0(1)]])
    have pb: "path h b0 = path h node @ [c]"
      by (rule path_child(1)[OF Cons.prems Some[unfolded b0(1)]])
    from Cons.IH[OF Cons.prems(1) b0(2)] obtain b h' where
      r: "insert_loop b0 s h = Some (b, h')" "wf_trie h'" "b < length h'"
        "extends h h'" "path h' b = path h b0 @ s"
        and new: "\<And>a. length h \<le> a \<Longrightarrow> a < length h' \<Longrightarrow>
              fresh (h' ! a) \<and> (\<exists>t. t \<noteq> [] \<and> prefix t s \<and> path h' a = path h b0 @ t)"
      by auto
    have "fresh (h' ! a) \<and> (\<exists>t. t \<noteq> [] \<and> prefix t (c # s) \<and> path h' a = path h node @ t)"
      if a: "length h \<le> a" "a < length h'" for a
    proof -
      from new[OF a] obtain t where t: "fresh (h' ! a)" "t \<noteq> []" "prefix t s"
        "path h' a = path h b0 @ t" by blast
      then show ?thesis using pb by (intro conjI exI[of _ "c # t"]) auto
    qed
    then show ?thesis using step r pb by auto
  qed
qed

lemma insert_loop_present:
  assumes "wf_trie h"
  shows "node < length h \<Longrightarrow> walk h node s = Some b \<Longrightarrow> insert_loop node s h = Some (b, h)"
proof (induction s arbitrary: node)
  case Nil
  then show ?case by simp
next
  case (Cons c s)
  from Cons.prems(2) obtain b0 where b0: "map_of (children (h ! node)) c = Some (Some b0)"
    "walk h b0 s = Some b" by (auto split: option.splits)
  have "insert_step node c h = Some (b0, h)"
    by (rule insert_step_old[OF assms Cons.prems(1) b0(1)])
  moreover have "b0 < length h" using path_child(2)[OF assms Cons.prems(1) b0(1)] .
  ultimately show ?case using Cons.IH[OF _ b0(2)] by simp
qed

subsection \<open>Inserting patterns\<close>

lemma wf_trie_cong:
  assumes len: "length h' = length h"
    and eq: "\<And>a. a < length h \<Longrightarrow> children (h' ! a) = children (h ! a) \<and>
          parent (h' ! a) = parent (h ! a) \<and> parentChar (h' ! a) = parentChar (h ! a)"
    and wf: "wf_trie h"
  shows "wf_trie h'"
  unfolding wf_trie_def
proof (intro conjI allI impI)
  show "0 < length h'" using wf_trie_root[OF wf] len by simp
  show "parent (h' ! 0) = None" using wf_trie_root[OF wf] eq[of 0] by simp
  {
    fix a assume "a < length h'"
    then show "distinct (map fst (children (h' ! a)))"
      using wf_trie_distinct[OF wf, of a] eq[of a] len by simp
  }
  {
    fix a c p
    assume a: "a < length h'" and m: "map_of (children (h' ! a)) c = Some p"
    from a len have al: "a < length h" by simp
    from m eq[OF al] have "map_of (children (h ! a)) c = Some p" by simp
    from wf_trie_child[OF wf al this] obtain b where b: "p = Some b" "a < b" "b < length h"
      "parent (h ! b) = Some a" "parentChar (h ! b) = c" by blast
    then show "\<exists>b. p = Some b \<and> a < b \<and> b < length h' \<and> parent (h' ! b) = Some a \<and> parentChar (h' ! b) = c"
      using eq[of b] len by simp
  }
  {
    fix b
    assume b: "b < length h'" and pos: "0 < b"
    from b len have bl: "b < length h" by simp
    from wf_trie_parent[OF wf bl pos] obtain a where a: "parent (h ! b) = Some a" "a < length h"
      "map_of (children (h ! a)) (parentChar (h ! b)) = Some (Some b)" by blast
    then show "\<exists>a. parent (h' ! b) = Some a \<and> a < length h' \<and>
            map_of (children (h' ! a)) (parentChar (h' ! b)) = Some (Some b)"
      using eq[of b] eq[of a] bl len by simp
  }
qed

lemma trie_of_init: "trie_of {} [new_Node]"
  by (auto simp: trie_of_def wf_trie_def new_Node_def)

lemma insert_trie_spec:
  assumes T: "trie_of W h"
  shows "\<exists>h'. insert_trie w h = Some h' \<and> trie_of (insert w W) h'"
proof -
  from T have wf: "wf_trie h" by (simp add: trie_of_def)
  have r0: "root < length h" using wf_trie_root[OF wf] by (simp add: root_def)
  from insert_loop_spec[OF wf r0, of w] obtain b h1 where
    r: "insert_loop root w h = Some (b, h1)" "wf_trie h1" "b < length h1"
      "extends h h1" "path h1 b = path h root @ w"
    and new: "\<And>a. length h \<le> a \<Longrightarrow> a < length h1 \<Longrightarrow>
              fresh (h1 ! a) \<and> (\<exists>t. t \<noteq> [] \<and> prefix t w \<and> path h1 a = path h root @ t)"
    by blast
  have pb: "path h1 b = w" using r(5) path_root[OF wf] by (simp add: root_def)
  define h' where "h' = h1[b := (h1 ! b)\<lparr>isWord := True, pattern := w\<rparr>]"
  have res: "insert_trie w h = Some h'"
    using r(1,3) by (simp add: insert_trie_def h'_def)
  have len: "length h' = length h1" by (simp add: h'_def)
  have wf': "wf_trie h'"
  proof (rule wf_trie_cong[OF len _ r(2)])
    fix a assume "a < length h1"
    then show "children (h' ! a) = children (h1 ! a) \<and> parent (h' ! a) = parent (h1 ! a) \<and>
        parentChar (h' ! a) = parentChar (h1 ! a)"
      by (cases "a = b") (simp_all add: h'_def)
  qed
  have path': "path h' a = path h1 a" for a
  proof (rule path_cong)
    fix c assume "c \<le> a"
    show "parent (h' ! c) = parent (h1 ! c) \<and> parentChar (h' ! c) = parentChar (h1 ! c)"
      using r(3) by (cases "c = b") (simp_all add: h'_def)
  qed
  have f1: "isWord (h' ! a) = (a = b \<or> isWord (h1 ! a))" if "a < length h1" for a
    using that by (cases "a = b") (simp_all add: h'_def)
  have f2: "pattern (h' ! a) = (if a = b then w else pattern (h1 ! a))" if "a < length h1" for a
    using that by (cases "a = b") (simp_all add: h'_def)
  have f3: "failureLink (h' ! a) = failureLink (h1 ! a) \<and> outputLink (h' ! a) = outputLink (h1 ! a)"
    if "a < length h1" for a
    using that by (cases "a = b") (simp_all add: h'_def)
  have old_path: "path h1 a = path h a" if "a < length h" for a
    using extends_path[OF r(4) that] .
  have hl: "length h \<le> length h1" using r(4) by (simp add: extends_def)
  have words_old: "\<exists>a < length h. path h1 a = w'" if "w' \<in> W" for w'
  proof -
    from T that obtain a where "a < length h" "path h a = w'" unfolding trie_of_def by blast
    then show ?thesis using old_path by auto
  qed
  have node_props: "(0 < a \<longrightarrow> (\<exists>w' \<in> insert w W. prefix (path h' a) w')) \<and>
        (isWord (h' ! a) \<longleftrightarrow> path h' a \<in> insert w W) \<and>
        (isWord (h' ! a) \<longrightarrow> pattern (h' ! a) = path h' a) \<and>
        failureLink (h' ! a) = None \<and> outputLink (h' ! a) = None"
    if a: "a < length h'" for a
  proof (cases "a < length h")
    case True
    from T True have old: "0 < a \<longrightarrow> (\<exists>w' \<in> W. prefix (path h a) w')"
      "isWord (h ! a) \<longleftrightarrow> path h a \<in> W" "isWord (h ! a) \<longrightarrow> pattern (h ! a) = path h a"
      "failureLink (h ! a) = None" "outputLink (h ! a) = None"
      unfolding trie_of_def by blast+
    from r(4) True have same: "isWord (h1 ! a) = isWord (h ! a)" "pattern (h1 ! a) = pattern (h ! a)"
      "failureLink (h1 ! a) = failureLink (h ! a)" "outputLink (h1 ! a) = outputLink (h ! a)"
      by (auto simp: extends_def)
    have al1: "a < length h1" using True hl by simp
    have neq: "path h a \<noteq> w" if "a \<noteq> b"
      using path_inj[OF r(2) al1 r(3)] that pb old_path[OF True] by auto
    have pa: "path h' a = path h a" using path'[of a] old_path[OF True] by simp
    show ?thesis
    proof (cases "a = b")
      case True
      then have "path h a = w" using pb old_path[OF \<open>a < length h\<close>] by simp
      then show ?thesis unfolding pa f1[OF al1] f2[OF al1] using True old(1,4,5) same(3,4) f3[OF al1]
        by simp
    next
      case False
      then show ?thesis unfolding pa f1[OF al1] f2[OF al1] using neq[OF False] old same f3[OF al1]
        by simp
    qed
  next
    case False
    then have ge: "length h \<le> a" by simp
    have al1: "a < length h1" using a len by simp
    from new[OF ge al1] obtain t where t: "fresh (h1 ! a)" "t \<noteq> []" "prefix t w"
      "path h1 a = path h root @ t" by blast
    then have pt: "path h1 a = t" using path_root[OF wf] by (simp add: root_def)
    have notW: "path h1 a \<notin> W"
    proof
      assume "path h1 a \<in> W"
      from words_old[OF this] obtain a0 where a0: "a0 < length h" "path h1 a0 = path h1 a" by blast
      then have "a0 = a" using path_inj[OF r(2) _ al1, of a0] hl by simp
      with a0(1) False show False by simp
    qed
    have iff: "path h1 a = w \<longleftrightarrow> a = b"
      using path_inj[OF r(2) al1 r(3)] pb by auto
    have pa: "path h' a = path h1 a" by (rule path')
    have pre: "\<exists>w' \<in> insert w W. prefix (path h1 a) w'" using t(3) pt by auto
    from t(1) have fr: "\<not> isWord (h1 ! a)" "failureLink (h1 ! a) = None" "outputLink (h1 ! a) = None"
      by (simp_all add: fresh_def)
    show ?thesis unfolding pa f1[OF al1] f2[OF al1] using pre notW iff fr f3[OF al1] pb
      by auto
  qed
  have words: "\<exists>a < length h'. path h' a = w'" if "w' \<in> insert w W" for w'
  proof (cases "w' = w")
    case True
    then show ?thesis using pb r(3) len by (auto simp: path')
  next
    case False
    with that have "w' \<in> W" by simp
    from words_old[OF this] obtain a where "a < length h" "path h1 a = w'" by blast
    then have "a < length h'" "path h' a = w'" using hl len by (simp_all add: path')
    then show ?thesis by blast
  qed
  have "trie_of (insert w W) h'"
    unfolding trie_of_def using wf' node_props words by blast
  with res show ?thesis by blast
qed

lemma insert_all_spec:
  "trie_of W h \<Longrightarrow> \<exists>h'. insert_all ws h = Some h' \<and> trie_of (W \<union> set ws) h'"
proof (induction ws arbitrary: W h)
  case Nil
  then show ?case by simp
next
  case (Cons w ws)
  from insert_trie_spec[OF Cons.prems, of w] obtain h1 where
    h1: "insert_trie w h = Some h1" "trie_of (insert w W) h1" by blast
  from Cons.IH[OF h1(2)] obtain h' where "insert_all ws h1 = Some h'"
    "trie_of (insert w W \<union> set ws) h'" by blast
  with h1(1) show ?case by simp
qed

lemma insert_trie_again:
  assumes T: "trie_of W h" and w: "w \<in> W"
  shows "insert_trie w h = Some h"
proof -
  from T have wf: "wf_trie h" by (simp add: trie_of_def)
  from T w obtain a where a: "a < length h" "path h a = w" unfolding trie_of_def by blast
  with T w have word: "isWord (h ! a)" "pattern (h ! a) = w" unfolding trie_of_def by auto
  have "walk h root w = Some a" using walk_path[OF wf a(1)] a(2) by (simp add: root_def)
  then have "insert_loop root w h = Some (a, h)"
    using insert_loop_present[OF wf _ _] wf_trie_root[OF wf] by (simp add: root_def)
  moreover have "(h ! a)\<lparr>isWord := True, pattern := w\<rparr> = h ! a"
    using word by (cases "h ! a") simp
  then have "h[a := (h ! a)\<lparr>isWord := True, pattern := w\<rparr>] = h"
    by simp
  ultimately show ?thesis using a(1) by (simp add: insert_trie_def)
qed

subsection \<open>Memories with the same trie\<close>

lemma same_trie_refl: "same_trie h h"
  by (simp add: same_trie_def)

lemma same_trie_trans: "same_trie h h1 \<Longrightarrow> same_trie h1 h2 \<Longrightarrow> same_trie h h2"
  by (simp add: same_trie_def)

lemma same_trie_sym: "same_trie h h' \<Longrightarrow> same_trie h' h"
  by (simp add: same_trie_def)

lemma same_links_refl: "same_links h h"
  by (simp add: same_links_def)

lemma same_links_trans:
  "length h1 = length h \<Longrightarrow> same_links h h1 \<Longrightarrow> same_links h1 h2 \<Longrightarrow> same_links h h2"
  by (simp add: same_links_def)

lemma same_trie_length: "same_trie h h' \<Longrightarrow> length h' = length h"
  by (simp add: same_trie_def)

lemma same_trie_wf: "same_trie h h' \<Longrightarrow> wf_trie h \<Longrightarrow> wf_trie h'"
  by (rule wf_trie_cong[of h' h]) (simp_all add: same_trie_def)

lemma same_trie_path: 
  assumes "same_trie h h'" "a < length h" 
  shows "path h' a = path h a"
  by (rule path_cong) (use assms in \<open>simp add: same_trie_def\<close>)

lemma same_trie_walk:
  assumes "same_trie h h'" "wf_trie h"
  shows "a < length h \<Longrightarrow> walk h' a s = walk h a s"
proof (induction s arbitrary: a)
  case Nil
  then show ?case by simp
next
  case (Cons c s)
  have ch: "children (h' ! a) = children (h ! a)"
    using assms(1) Cons.prems by (simp add: same_trie_def)
  show ?case
  proof (cases "map_of (children (h ! a)) c")
    case None
    then show ?thesis using ch by simp
  next
    case (Some p)
    from wf_trie_child[OF assms(2) Cons.prems Some] obtain b where "p = Some b" "b < length h"
      by blast
    then show ?thesis using ch Some Cons.IH[of b] by simp
  qed
qed

lemma same_trie_of:
  assumes "same_trie h h'" "same_links h h'" "trie_of W h"
  shows "trie_of W h'"
proof -
  from assms(3) have wf: "wf_trie h" by (simp add: trie_of_def)
  have len: "length h' = length h" by (rule same_trie_length[OF assms(1)])
  have p: "path h' a = path h a" if "a < length h" for a
    by (rule same_trie_path[OF assms(1) that])
  have f: "isWord (h' ! a) = isWord (h ! a)" "pattern (h' ! a) = pattern (h ! a)"
    "failureLink (h' ! a) = failureLink (h ! a)" "outputLink (h' ! a) = outputLink (h ! a)"
    if "a < length h" for a
    using assms(1,2) that by (simp_all add: same_trie_def same_links_def)
  show ?thesis
    unfolding trie_of_def
  proof (intro conjI allI impI ballI)
    show "wf_trie h'" by (rule same_trie_wf[OF assms(1) wf])
  next
    fix a assume "a < length h'" "0 < a"
    then show "\<exists>w\<in>W. prefix (path h' a) w"
      using assms(3) len p[of a] unfolding trie_of_def by auto
  next
    fix a assume a: "a < length h'"
    then show "isWord (h' ! a) = (path h' a \<in> W)"
      using assms(3) len p[of a] f(1)[of a] unfolding trie_of_def by auto
    show "failureLink (h' ! a) = None"
      using a assms(3) len f(3)[of a] unfolding trie_of_def by auto
    show "outputLink (h' ! a) = None"
      using a assms(3) len f(4)[of a] unfolding trie_of_def by auto
  next
    fix a assume "a < length h'" "isWord (h' ! a)"
    then show "pattern (h' ! a) = path h' a"
      using assms(3) len p[of a] f(1,2)[of a] unfolding trie_of_def by auto
  next
    fix w assume "w \<in> W"
    with assms(3) obtain a where "a < length h" "path h a = w" unfolding trie_of_def by blast
    then show "\<exists>a<length h'. path h' a = w" using len p[of a] by auto
  qed
qed

subsection \<open>Levels\<close>

lemma set_iterate: "set (iterate ord m) = set m"
  by (auto simp: iterate_def dest: mset_eq_setD)

lemma same_trie_kids: "same_trie h h' \<Longrightarrow> a < length h \<Longrightarrow> kids ord h' a = kids ord h a"
  by (simp add: same_trie_def kids_def)

lemma same_trie_level: "same_trie h h' \<Longrightarrow> level_nodes h' d = level_nodes h d"
  using same_trie_path[of h h'] by (auto simp: level_nodes_def same_trie_def)

lemma level_bound:
  assumes "wf_trie h" "a \<in> level_nodes h d"
  shows "d < length h"
  using assms length_path_le[OF assms(1), of a] by (auto simp: level_nodes_def)

lemma in_kids_iff:
  "p \<in> set (kids ord h a) \<longleftrightarrow> (\<exists>c. (c, p) \<in> set (children (h ! a)))"
  by (force simp: kids_def set_iterate)

lemma kids_level:
  assumes wf: "wf_trie h" and a: "a \<in> level_nodes h d" and p: "p \<in> set (kids ord h a)"
  shows "\<exists>b. p = Some b \<and> b \<in> level_nodes h (Suc d)"
proof -
  from p obtain c where c: "(c, p) \<in> set (children (h ! a))" by (auto simp: in_kids_iff)
  from a have al: "a < length h" and da: "length (path h a) = d" by (auto simp: level_nodes_def)
  from c have m: "map_of (children (h ! a)) c = Some p"
    using wf_trie_distinct[OF wf al] by simp
  from wf_trie_child[OF wf al m]
  have "\<exists>b. p = Some b \<and> a < b \<and> b < length h \<and> parent (h ! b) = Some a \<and> parentChar (h ! b) = c"
    by blast
  then obtain b where b: "p = Some b" "a < b" "b < length h" "parent (h ! b) = Some a"
    "parentChar (h ! b) = c" by blast
  then have "path h b = path h a @ [c]" by (simp add: path.simps[of h b])
  with b da show ?thesis by (auto simp: level_nodes_def)
qed

subsection \<open>Breadth-first levels\<close>

lemma level_parent:
  assumes wf: "wf_trie h" and b: "b \<in> level_nodes h (Suc d)"
  shows "\<exists>a \<in> level_nodes h d. Some b \<in> set (kids ord h a)"
proof -
  from b have bl: "b < length h" and db: "length (path h b) = Suc d"
    by (auto simp: level_nodes_def)
  have "0 < b" using db path_root[OF wf] by (cases "b = 0") auto
  from path_nonroot[OF wf bl this] obtain a where a: "a < length h"
    "map_of (children (h ! a)) (parentChar (h ! b)) = Some (Some b)"
    "path h b = path h a @ [parentChar (h ! b)]" by blast
  from a(2) have "(parentChar (h ! b), Some b) \<in> set (children (h ! a))"
    by (rule map_of_SomeD)
  then have "Some b \<in> set (kids ord h a)" by (auto simp: in_kids_iff)
  moreover have "a \<in> level_nodes h d" using a(1,3) db by (simp add: level_nodes_def)
  ultimately show ?thesis by blast
qed

lemma next_level:
  assumes wf: "wf_trie h" and xs: "set xs = level_nodes h d"
  shows "set (concat (map (kids ord h) xs)) = Some ` level_nodes h (Suc d)"
proof (intro equalityI subsetI)
  fix p assume "p \<in> set (concat (map (kids ord h) xs))"
  then obtain a where "a \<in> set xs" "p \<in> set (kids ord h a)" by auto
  with kids_level[OF wf, of a d p] xs show "p \<in> Some ` level_nodes h (Suc d)" by auto
next
  fix p assume "p \<in> Some ` level_nodes h (Suc d)"
  then obtain b where b: "p = Some b" "b \<in> level_nodes h (Suc d)" by auto
  from level_parent[OF wf b(2)] xs b(1) show "p \<in> set (concat (map (kids ord h) xs))" by auto
qed

lemma level_empty_up:
  assumes wf: "wf_trie h" and e: "level_nodes h d = {}"
  shows "d \<le> e \<Longrightarrow> level_nodes h e = {}"
proof (induction e)
  case 0
  then show ?case using e by simp
next
  case (Suc e)
  show ?case
  proof (cases "d = Suc e")
    case True
    then show ?thesis using e by simp
  next
    case False
    with Suc.prems have "d \<le> e" by simp
    from Suc.IH[OF this] level_parent[OF wf, of _ e] show ?thesis by blast
  qed
qed

lemma level_0: "wf_trie h \<Longrightarrow> level_nodes h 0 = {0}"
  using path_eq_Nil[of h] wf_trie_root[of h] by (auto simp: level_nodes_def)

lemma queue_of_level:
  assumes "set q = Some ` A"
  shows "\<exists>xs. q = map Some xs \<and> set xs = A"
proof -
  have "\<And>p. p \<in> set q \<Longrightarrow> Some (the p) = p" using assms by auto
  then have "map (\<lambda>p. Some (the p)) q = q" by (simp add: map_idI)
  then have "q = map Some (map the q)" by (simp add: comp_def)
  moreover have "set (map the q) = A" using assms by (force simp: image_iff)
  ultimately show ?thesis by blast
qed

subsection \<open>assignIds\<close>

lemma assignIds_level_spec:
  assumes "\<And>a. a \<in> set xs \<Longrightarrow> a < length h"
  shows "\<exists>i' h'. assignIds_level ord (length xs) (map Some xs @ q) i h =
           Some (q @ concat (map (kids ord h) xs), i', h') \<and> same_trie h h' \<and> same_links h h'"
  using assms
proof (induction xs arbitrary: q i h)
  case Nil
  then show ?case by (simp add: same_trie_refl same_links_refl)
next
  case (Cons x xs)
  define h1 where "h1 = h[x := (h ! x)\<lparr>node_id := i\<rparr>]"
  have x: "x < length h" using Cons.prems by simp
  have st: "same_trie h h1" 
    unfolding same_trie_def h1_def using x by (simp add: nth_list_update)
  have sl: "same_links h h1"
    unfolding same_links_def h1_def using x by (simp add: nth_list_update)
  have len: "length h1 = length h" by (simp add: h1_def)
  have k: "map snd (iterate ord (children (h1 ! x))) = kids ord h x"
    using x by (simp add: h1_def kids_def)
  have "\<And>a. a \<in> set xs \<Longrightarrow> a < length h1" using Cons.prems len by simp
  from Cons.IH[OF this, of "q @ kids ord h x" "i + 1"] obtain i' h' where
    r: "assignIds_level ord (length xs) (map Some xs @ q @ kids ord h x) (i + 1) h1 =
          Some ((q @ kids ord h x) @ concat (map (kids ord h1) xs), i', h')"
      "same_trie h1 h'" "same_links h1 h'" by auto
  have "map (kids ord h1) xs = map (kids ord h) xs"
    using Cons.prems same_trie_kids[OF st] by simp
  then have "concat (map (kids ord h1) xs) = concat (map (kids ord h) xs)"
    by (rule arg_cong)
  then show ?case
    using r x k same_trie_trans[OF st r(2)] same_links_trans[OF len sl r(3)]
    by (simp add: deref_def h1_def[symmetric] Let_def)
qed

lemma assignIds_loop_spec:
  assumes "wf_trie h" "set q = Some ` level_nodes h d"
  shows "\<exists>h'. assignIds_loop ord q i h = Some h' \<and> same_trie h h' \<and> same_links h h'"
  using assms
proof (induction "length h - d" arbitrary: q i h d rule: less_induct)
  case less
  show ?case
  proof (cases "q = []")
    case True
    then show ?thesis
      by (subst assignIds_loop.simps) (simp add: same_trie_refl same_links_refl)
  next
    case False
    from queue_of_level[OF less.prems(2)] obtain xs where xs: "q = map Some xs"
      "set xs = level_nodes h d" by blast
    with False obtain a where "a \<in> level_nodes h d" by (cases xs) auto
    from level_bound[OF less.prems(1) this] have d: "d < length h" .
    have valid: "\<And>a. a \<in> set xs \<Longrightarrow> a < length h" using xs(2) by (simp add: level_nodes_def)
    from assignIds_level_spec[OF valid, where xs = xs and q = "[]" and i = i and ord = ord] obtain i' h1 where
      r: "assignIds_level ord (length xs) (map Some xs) i h = Some (concat (map (kids ord h) xs), i', h1)"
        "same_trie h h1" "same_links h h1" by auto
    have wf1: "wf_trie h1" by (rule same_trie_wf[OF r(2) less.prems(1)])
    have len: "length h1 = length h" by (rule same_trie_length[OF r(2)])
    have q1: "set (concat (map (kids ord h) xs)) = Some ` level_nodes h1 (Suc d)"
      using next_level[OF less.prems(1) xs(2)] same_trie_level[OF r(2)] by simp
    have "length h1 - Suc d < length h - d" using d len by simp
    from less.hyps[OF this wf1 q1, of i'] obtain h' where
      h': "assignIds_loop ord (concat (map (kids ord h) xs)) i' h1 = Some h'" "same_trie h1 h'"
        "same_links h1 h'" by blast
    have "assignIds_loop ord q i h = Some h'"
      using False r(1) h'(1) xs(1) by (subst assignIds_loop.simps) simp
    then show ?thesis
      using same_trie_trans[OF r(2) h'(2)] same_links_trans[OF len r(3) h'(3)] by blast
  qed
qed

lemma assignIds_spec:
  assumes "wf_trie h"
  shows "\<exists>h'. assignIds ord h = Some h' \<and> same_trie h h' \<and> same_links h h'"
  unfolding assignIds_def
  by (rule assignIds_loop_spec[OF assms, where d = 0]) (simp add: level_0[OF assms] root_def)

lemma buildTrieTree_spec:
  "\<exists>h. buildTrieTree ord ws [new_Node] = Some h \<and> trie_of (set ws) h"
proof -
  from insert_all_spec[OF trie_of_init, of ws] obtain h1 where
    h1: "insert_all ws [new_Node] = Some h1" "trie_of (set ws) h1" by auto
  then have "wf_trie h1" by (simp add: trie_of_def)
  from assignIds_spec[OF this] obtain h where
    h: "assignIds ord h1 = Some h" "same_trie h1 h" "same_links h1 h" by blast
  from same_trie_of[OF h(2,3) h1(2)] h1(1) h(1) show ?thesis
    by (simp add: buildTrieTree_def)
qed

subsection \<open>Longest suffixes of strings\<close>

lemma lsuf_suffix: "suffix (lsuf P t) t"
  by (induction t) (auto simp: suffix_Cons)

lemma lsuf_length: "length (lsuf P t) \<le> length t"
  using lsuf_suffix[of P t] by (rule suffix_length_le)

lemma lsuf_in: "P [] \<Longrightarrow> P (lsuf P t)"
  by (induction t) auto

lemma lsuf_max: "suffix u t \<Longrightarrow> P u \<Longrightarrow> suffix u (lsuf P t)"
  by (induction t) (auto simp: suffix_Cons)

lemma lsuf_id: "P t \<Longrightarrow> lsuf P t = t"
  by (cases t) auto

lemma lsuf_snoc:
  "lsuf P (t @ [c]) = (case lsufc P c t of Some y \<Rightarrow> y @ [c] | None \<Rightarrow> [])"
  by (induction t) auto

lemma lsufc_unfold:
  "lsufc P c v = (if P (v @ [c]) then Some v else if v = [] then None else lsufc P c (tl v))"
  by (cases v) auto

lemma lsufc_lsuf:
  assumes "prefix_closed P"
  shows "lsufc P c (lsuf P t) = lsufc P c t"
proof (induction t)
  case Nil
  then show ?case by simp
next
  case (Cons x t)
  show ?case
  proof (cases "P (x # t)")
    case True
    then show ?thesis by simp
  next
    case False
    then have "\<not> P ((x # t) @ [c])" using assms unfolding prefix_closed_def by blast
    then show ?thesis using False Cons.IH by simp
  qed
qed

lemma lsufc_fail:
  assumes "prefix_closed P" "v \<noteq> []" "\<not> P (v @ [c])"
  shows "lsufc P c v = lsufc P c (lsuf P (tl v))"
  using assms lsufc_unfold[of P c v] lsufc_lsuf[OF assms(1), of c "tl v"] by simp

lemma lsufc_Some: "lsufc P c t = Some y \<Longrightarrow> suffix y t \<and> P (y @ [c])"
  by (induction t) (auto simp: suffix_Cons split: if_splits)

lemma lsufc_None: "lsufc P c t = None \<Longrightarrow> \<not> P [c]"
  by (induction t) (auto split: if_splits)

lemma osuf_Some: "osuf W t = Some s \<Longrightarrow> W s \<and> suffix s t"
  by (induction t) (auto simp: suffix_Cons split: if_splits)

lemma osuf_None: "osuf W t = None \<Longrightarrow> suffix s t \<Longrightarrow> \<not> W s"
  by (induction t) (auto simp: suffix_Cons split: if_splits)

lemma osuf_max: "osuf W t = Some s \<Longrightarrow> suffix u t \<Longrightarrow> W u \<Longrightarrow> suffix u s"
  by (induction t) (auto simp: suffix_Cons split: if_splits)

lemma osuf_lsuf:
  assumes "\<And>s. W s \<Longrightarrow> P s"
  shows "osuf W (lsuf P t) = osuf W t"
proof (induction t)
  case Nil
  then show ?case by simp
next
  case (Cons x t)
  then show ?case using assms[of "x # t"] by auto
qed

lemma osuf_unfold:
  "t \<noteq> [] \<Longrightarrow> osuf W t = (if W t then Some t else osuf W (tl t))"
  by (cases t) auto


lemma wsufs_none: "(\<And>s. suffix s t \<Longrightarrow> \<not> W s) \<Longrightarrow> wsufs W t = []"
proof (induction t)
  case Nil
  then show ?case by simp
next
  case (Cons x t)
  have "\<not> W (x # t)" using Cons.prems[of "x # t"] by simp
  moreover have "wsufs W t = []"
    by (rule Cons.IH) (use Cons.prems in \<open>simp add: suffix_Cons\<close>)
  ultimately show ?case by simp
qed

lemma wsufs_osuf: "osuf W t = Some s \<Longrightarrow> s \<noteq> [] \<Longrightarrow> wsufs W t = s # wsufs W (tl s)"
  by (induction t) (auto split: if_splits)

lemma wsufs_lsuf:
  assumes "\<And>s. W s \<Longrightarrow> P s"
  shows "wsufs W (lsuf P t) = wsufs W t"
proof (induction t)
  case Nil
  then show ?case by simp
next
  case (Cons x t)
  then show ?case using assms[of "x # t"] by auto
qed

subsection \<open>What the links have to be\<close>

lemma present_closed: "prefix_closed (present h)"
  by (auto simp: prefix_closed_def present_def walk_append split: option.splits)

lemma is_word_present: "is_word h s \<Longrightarrow> present h s"
  by (auto simp: is_word_def present_def split: option.splits)

lemma present_path: "wf_trie h \<Longrightarrow> a < length h \<Longrightarrow> present h (path h a)"
  by (simp add: present_def root_def walk_path)

lemma present_node:
  assumes "wf_trie h" "present h s"
  obtains a where "walk h root s = Some a" "a < length h" "path h a = s"
  using assms walk_iff[OF assms(1), of s] by (auto simp: present_def root_def)

lemma is_word_path: "wf_trie h \<Longrightarrow> a < length h \<Longrightarrow> is_word h (path h a) = isWord (h ! a)"
  by (simp add: is_word_def root_def walk_path)

lemma is_word_Nil: "is_word h [] = isWord (h ! root)"
  by (simp add: is_word_def)

lemma child_walk:
  assumes "wf_trie h" "f < length h" "map_of (children (h ! f)) c = Some (Some t)"
  shows "walk h root (path h f @ [c]) = Some t"
  using assms by (simp add: walk_append root_def walk_path)

lemma present_snoc:
  assumes "wf_trie h" "f < length h"
  shows "present h (path h f @ [c]) \<longleftrightarrow> contains (children (h ! f)) c"
proof (cases "map_of (children (h ! f)) c")
  case None
  then show ?thesis using assms
    by (simp add: present_def walk_append root_def walk_path contains_iff)
next
  case (Some p)
  from wf_trie_child[OF assms Some] obtain b where "p = Some b" by blast
  with Some assms show ?thesis
    by (simp add: present_def walk_append root_def walk_path contains_iff)
qed

lemma same_trie_present: "same_trie h h' \<Longrightarrow> wf_trie h \<Longrightarrow> present h' = present h"
  using same_trie_walk[of h h' root] wf_trie_root[of h]
  by (auto simp: present_def fun_eq_iff root_def)

lemma same_trie_is_word:
  assumes "same_trie h h'" "wf_trie h"
  shows "is_word h' = is_word h"
proof
  fix s
  have w: "walk h' root s = walk h root s"
    using same_trie_walk[OF assms, of root s] wf_trie_root[OF assms(2)] by (simp add: root_def)
  show "is_word h' s = is_word h s"
  proof (cases "walk h root s")
    case None
    then show ?thesis using w by (simp add: is_word_def)
  next
    case (Some a)
    then have "a < length h" using walk_iff[OF assms(2), of s a] by (simp add: root_def)
    then show ?thesis using w Some assms(1) by (simp add: is_word_def same_trie_def)
  qed
qed

lemma same_trie_walk_root:
  assumes "same_trie h h'" "wf_trie h"
  shows "walk h' root s = walk h root s"
  using same_trie_walk[OF assms, of root s] wf_trie_root[OF assms(2)] by (simp add: root_def)

lemma same_trie_fail_of:
  assumes "same_trie h h'" "wf_trie h" "a < length h"
  shows "fail_of h' a = fail_of h a"
  unfolding fail_of_def same_trie_present[OF assms(1,2)] same_trie_path[OF assms(1,3)]
    same_trie_walk_root[OF assms(1,2)] ..

lemma same_trie_out_of:
  assumes "same_trie h h'" "wf_trie h" "a < length h"
  shows "out_of h' a = out_of h a"
  unfolding out_of_def same_trie_is_word[OF assms(1,2)] same_trie_path[OF assms(1,3)]
    same_trie_walk_root[OF assms(1,2)] ..

lemma linked_cong:
  assumes st: "same_trie h h'" and wf: "wf_trie h" and a: "a < length h"
    and eq: "failureLink (h' ! a) = failureLink (h ! a)" "outputLink (h' ! a) = outputLink (h ! a)"
  shows "linked h' a = linked h a"
proof -
  have len: "length h' = length h" by (rule same_trie_length[OF st])
  have r: "isWord (h' ! root) = isWord (h ! root)"
    using st wf_trie_root[OF wf] by (simp add: same_trie_def root_def)
  have p: "\<And>l. l < length h \<Longrightarrow> path h' l = path h l"
    by (rule same_trie_path[OF st])
  have "(\<forall>l. outputLink (h ! a) = Some l \<longrightarrow> l < length h' \<and> length (path h' l) < length (path h' a))
     \<longleftrightarrow> (\<forall>l. outputLink (h ! a) = Some l \<longrightarrow> l < length h \<and> length (path h l) < length (path h a))"
    using len p a by auto
  then show ?thesis
    unfolding linked_def eq r same_trie_fail_of[OF st wf a] same_trie_out_of[OF st wf a]
    by simp
qed

lemma fail_of_node:
  assumes "wf_trie h" "a < length h"
  obtains f where "fail_of h a = Some f" "f < length h" "path h f = lsuf (present h) (tl (path h a))"
proof -
  have "present h (lsuf (present h) (tl (path h a)))"
    using present_closed[of h] by (simp add: prefix_closed_def lsuf_in[of "present h"])
  from present_node[OF assms(1) this] obtain f where f: 
    "walk h root (lsuf (present h) (tl (path h a))) = Some f" "f < length h"
    "path h f = lsuf (present h) (tl (path h a))" by blast
  show thesis by (rule that[OF _ f(2,3)]) (simp only: fail_of_def f(1))
qed

lemma fail_of_shorter:
  assumes "wf_trie h" "a < length h" "a \<noteq> 0" "fail_of h a = Some f"
  shows "length (path h f) < length (path h a)"
proof -
  from fail_of_node[OF assms(1,2)] obtain f' where f': "fail_of h a = Some f'"
    "path h f' = lsuf (present h) (tl (path h a))" by blast
  with assms(4) have pf: "path h f = lsuf (present h) (tl (path h a))" by simp
  have "path h a \<noteq> []" using path_eq_Nil[OF assms(1,2)] assms(3) by simp
  then have "length (tl (path h a)) < length (path h a)" by simp
  moreover have "length (path h f) \<le> length (tl (path h a))"
    unfolding pf by (rule lsuf_length)
  ultimately show ?thesis by simp
qed

subsection \<open>The loop of connectFailureLink\<close>

lemma wf_child_Some:
  assumes "wf_trie h" "f < length h" "contains (children (h ! f)) c"
  obtains t where "map_of (children (h ! f)) c = Some (Some t)" "t < length h"
    "path h t = path h f @ [c]"
proof -
  from assms(3) obtain p where p: "map_of (children (h ! f)) c = Some p"
    by (auto simp: contains_iff)
  from wf_trie_child[OF assms(1,2) p] obtain t where t: "p = Some t" "t < length h" by blast
  from path_child(1)[OF assms(1,2) p[unfolded t(1)]] p t that show thesis by blast
qed

text \<open>What the loop of connectFailureLink computes, started at a cursor f.\<close>

lemma connect_loop_spec:
  assumes wf: "wf_trie h" and node: "node < length h"
    and c: "c = parentChar (h ! node)"
    and lk: "\<And>b. b < length h \<Longrightarrow> length (path h b) \<le> k \<Longrightarrow> linked h b"
  shows "f < length h \<Longrightarrow> length (path h f) \<le> k \<Longrightarrow>
    (case lsufc (present h) c (path h f) of
       None \<Rightarrow> connect_loop node (Some f) h = Some h
     | Some y \<Rightarrow> (\<exists>t. walk h root (y @ [c]) = Some t \<and> t < length h \<and> path h t = y @ [c] \<and>
          length y \<le> k \<and>
          connect_loop node (Some f) h =
            Some (h[node := (h ! node)\<lparr>failureLink := Some t,
                      outputLink := (if isWord (h ! t) then Some t else outputLink (h ! t))\<rparr>])))"
proof (induction "length (path h f)" arbitrary: f rule: less_induct)
  case less
  note f = less.prems(1) and fk = less.prems(2)
  show ?case
  proof (cases "contains (children (h ! f)) c")
    case True
    from wf_child_Some[OF wf f True] obtain t where t: "map_of (children (h ! f)) c = Some (Some t)"
      "t < length h" "path h t = path h f @ [c]" by blast
    have P: "present h (path h f @ [c])" using present_snoc[OF wf f] True by simp
    have ls: "lsufc (present h) c (path h f) = Some (path h f)"
      using P lsufc_unfold[of "present h" c "path h f"] by simp
    have w: "walk h root (path h f @ [c]) = Some t" by (rule child_walk[OF wf f t(1)])
    define h2 where "h2 = h[node := (h ! node)\<lparr>failureLink := Some t\<rparr>]"
    have h2n: "h2 ! node = (h ! node)\<lparr>failureLink := Some t\<rparr>" using node by (simp add: h2_def)
    have iw: "isWord (h2 ! t) = isWord (h ! t)" "outputLink (h2 ! t) = outputLink (h ! t)"
      using node by (cases "t = node"; simp add: h2_def)+
    have len2: "length h2 = length h" by (simp add: h2_def)
    have res: "h2[node := (h2 ! node)\<lparr>outputLink := X\<rparr>] =
        h[node := (h ! node)\<lparr>failureLink := Some t, outputLink := X\<rparr>]" for X
      by (simp add: h2n) (simp add: h2_def)
    have "connect_loop node (Some f) h =
       Some (h[node := (h ! node)\<lparr>failureLink := Some t,
                      outputLink := (if isWord (h ! t) then Some t else outputLink (h ! t))\<rparr>])"
      apply (subst connect_loop.simps)
      using f node True t(1,2) c
      apply (simp add: child_ref_present h2_def[symmetric] Let_def deref_def len2 h2n iw)
      apply (simp add: res[unfolded h2n])
      done
    then show ?thesis using ls w t fk by simp
  next
    case False
    have nP: "\<not> present h (path h f @ [c])" using present_snoc[OF wf f] False by simp
    have step: "connect_loop node (Some f) h = connect_loop node (failureLink (h ! f)) h"
      by (subst connect_loop.simps) (use f node False c in simp)
    show ?thesis
    proof (cases "f = root")
      case True
      have "linked h f" by (rule lk[OF f fk])
      then have "failureLink (h ! f) = None" using True by (simp add: linked_def)
      then have "connect_loop node (Some f) h = Some h"
        unfolding step by (subst connect_loop.simps) simp
      moreover have "lsufc (present h) c (path h f) = None"
        using nP True path_root[OF wf] by (simp add: root_def)
      ultimately show ?thesis by simp
    next
      case False
      then have f0: "f \<noteq> 0" by (simp add: root_def)
      have "linked h f" by (rule lk[OF f fk])
      then have fl: "failureLink (h ! f) = fail_of h f" using False by (simp add: linked_def)
      from fail_of_node[OF wf f] obtain f' where f': "fail_of h f = Some f'" "f' < length h"
        "path h f' = lsuf (present h) (tl (path h f))" by blast
      have sh: "length (path h f') < length (path h f)"
        by (rule fail_of_shorter[OF wf f f0 f'(1)])
      have ne: "path h f \<noteq> []" using path_eq_Nil[OF wf f] f0 by simp
      have eq: "lsufc (present h) c (path h f) = lsufc (present h) c (path h f')"
        unfolding f'(3) by (rule lsufc_fail[OF present_closed ne nP])
      have "length (path h f') \<le> k" using sh fk by simp
      from less.hyps[OF sh f'(2) this] show ?thesis
        unfolding eq step fl f'(1) .
    qed
  qed
qed

subsection \<open>connectFailureLink\<close>

lemma out_of_fail_root:
  assumes "lsuf (present h) (tl (path h a)) = []" "\<not> isWord (h ! root)"
  shows "out_of h a = None"
proof -
  have "osuf (is_word h) (tl (path h a)) = osuf (is_word h) (lsuf (present h) (tl (path h a)))"
    by (rule osuf_lsuf[symmetric]) (rule is_word_present)
  also have "\<dots> = None" using assms by (simp add: is_word_Nil)
  finally show ?thesis by (simp add: out_of_def)
qed

lemma out_of_fail_node:
  assumes wf: "wf_trie h" and t: "t < length h" "t \<noteq> 0"
    and pt: "path h t = lsuf (present h) (tl (path h a))"
  shows "out_of h a = (if isWord (h ! t) then Some t else out_of h t)"
proof -
  have ne: "path h t \<noteq> []" using path_eq_Nil[OF wf t(1)] t(2) by simp
  have "osuf (is_word h) (tl (path h a)) = osuf (is_word h) (lsuf (present h) (tl (path h a)))"
    by (rule osuf_lsuf[symmetric]) (rule is_word_present)
  also have "\<dots> = osuf (is_word h) (path h t)" by (simp only: pt)
  also have "\<dots> = (if is_word h (path h t) then Some (path h t) else osuf (is_word h) (tl (path h t)))"
    by (rule osuf_unfold[OF ne])
  finally have o: "osuf (is_word h) (tl (path h a)) =
      (if isWord (h ! t) then Some (path h t) else osuf (is_word h) (tl (path h t)))"
    by (simp only: is_word_path[OF wf t(1)])
  have w: "walk h root (path h t) = Some t" using walk_path[OF wf t(1)] by (simp add: root_def)
  show ?thesis
  proof (cases "isWord (h ! t)")
    case True
    then show ?thesis using o w by (simp add: out_of_def)
  next
    case False
    then show ?thesis using o by (simp add: out_of_def)
  qed
qed

lemma linked_transfer:
  assumes st: "same_trie h h'" and wf: "wf_trie h" and a: "a < length h" "a \<noteq> root"
    and i: "failureLink (h' ! a) = fail_of h a"
    and ii: "\<And>l. outputLink (h' ! a) = Some l \<Longrightarrow> l < length h \<and> length (path h l) < length (path h a)"
    and iii: "\<not> isWord (h ! root) \<Longrightarrow> outputLink (h' ! a) = out_of h a"
  shows "linked h' a"
proof -
  have len: "length h' = length h" by (rule same_trie_length[OF st])
  have r: "isWord (h' ! root) = isWord (h ! root)"
    using st wf_trie_root[OF wf] by (simp add: same_trie_def root_def)
  have p: "\<And>l. l < length h \<Longrightarrow> path h' l = path h l"
    by (rule same_trie_path[OF st])
  have 2: "l < length h' \<and> length (path h' l) < length (path h' a)" if "outputLink (h' ! a) = Some l" for l
    using ii[OF that] len p[of l] p[OF a(1)] by simp
  show ?thesis
    unfolding linked_def r same_trie_fail_of[OF st wf a(1)] same_trie_out_of[OF st wf a(1)]
    using a(2) i 2 iii by simp
qed

lemma linked_out_props:
  assumes "linked h a" "a \<noteq> root"
  shows "\<And>l. outputLink (h ! a) = Some l \<Longrightarrow> l < length h \<and> length (path h l) < length (path h a)"
    and "\<not> isWord (h ! root) \<Longrightarrow> outputLink (h ! a) = out_of h a"
    and "failureLink (h ! a) = fail_of h a"
  using assms by (simp_all add: linked_def)

lemma connect_spec:
  assumes inv: "link_inv d h" and a: "a < length h" and da: "length (path h a) = d"
  shows "\<exists>h'. connectFailureLink a h = Some h' \<and> same_trie h h' \<and>
           (\<forall>b < length h. b \<noteq> a \<longrightarrow> h' ! b = h ! b) \<and> linked h' a"
proof (cases "a = 0")
  case True
  from inv have wf: "wf_trie h" and lr: "linked h root" by (simp_all add: link_inv_def)
  have "connectFailureLink a h = Some h"
    using True wf_trie_root[OF wf] by (simp add: connectFailureLink_def)
  then show ?thesis using lr True by (simp add: same_trie_refl root_def)
next
  case False
  from inv have wf: "wf_trie h" and lr: "linked h root" by (simp_all add: link_inv_def)
  from inv have low: "\<And>b. b < length h \<Longrightarrow> length (path h b) < d \<Longrightarrow> linked h b"
    by (simp add: link_inv_def)
  from inv a have X0: "outputLink (h ! a) = None \<or> linked h a" by (simp add: link_inv_def)
  have ar: "a \<noteq> root" using False by (simp add: root_def)
  from False have "0 < a" by simp
  from path_nonroot[OF wf a this] obtain p where p: "parent (h ! a) = Some p" "p < a"
    "p < length h" "path h a = path h p @ [parentChar (h ! a)]" by blast
  define c where "c = parentChar (h ! a)"
  define h1 where "h1 = h[a := (h ! a)\<lparr>failureLink := Some root\<rparr>]"
  have h1a: "h1 ! a = (h ! a)\<lparr>failureLink := Some root\<rparr>" using a by (simp add: h1_def)
  have h1b: "h1 ! b = h ! b" if "b \<noteq> a" for b using that by (simp add: h1_def)
  have len1: "length h1 = length h" by (simp add: h1_def)
  have st1: "same_trie h h1"
    unfolding same_trie_def using a by (simp add: h1_def nth_list_update)
  have wf1: "wf_trie h1" by (rule same_trie_wf[OF st1 wf])
  have pa: "path h a = path h p @ [c]" using p(4) by (simp add: c_def)
  \<comment> \<open>the two ways the output link can stay as it was\<close>
  have keep_ii: "l < length h \<and> length (path h l) < length (path h a)"
    if "outputLink (h ! a) = Some l" for l
    using X0 that linked_out_props(1)[OF _ ar, of h l] by auto
  have keep_iii: "outputLink (h ! a) = out_of h a"
    if "\<not> isWord (h ! root)" "lsuf (present h) (tl (path h a)) = []"
    using X0 that linked_out_props(2)[OF _ ar, of h] out_of_fail_root[OF that(2,1)] by auto
  have fail_root: "fail_of h a = Some root" if "lsuf (present h) (tl (path h a)) = []"
    using that by (simp add: fail_of_def)
  have others: "\<forall>b < length h. b \<noteq> a \<longrightarrow> h1 ! b = h ! b" using h1b by simp
  have linked_h1: "linked h1 a" if "lsuf (present h) (tl (path h a)) = []"
  proof (rule linked_transfer[OF st1 wf a ar])
    show "failureLink (h1 ! a) = fail_of h a" using fail_root[OF that] by (simp add: h1a)
    show "\<And>l. outputLink (h1 ! a) = Some l \<Longrightarrow> l < length h \<and> length (path h l) < length (path h a)"
      using keep_ii by (simp add: h1a)
    show "\<not> isWord (h ! root) \<Longrightarrow> outputLink (h1 ! a) = out_of h a"
      using keep_iii[OF _ that] by (simp add: h1a)
  qed
  show ?thesis
  proof (cases "p = root")
    case True
    have res: "connectFailureLink a h = Some h1"
      using a p(1) True by (simp add: connectFailureLink_def h1_def[symmetric] Let_def h1a)
    have "path h a = [c]" using pa True path_root[OF wf] by (simp add: root_def)
    then have "lsuf (present h) (tl (path h a)) = []" by simp
    from linked_h1[OF this] res st1 others show ?thesis by blast
  next
    case False
    then have p0: "p \<noteq> 0" by (simp add: root_def)
    have pne: "path h p \<noteq> []" using path_eq_Nil[OF wf p(3)] p0 by simp
    have dp: "Suc (length (path h p)) = d" using da pa by simp
    have pna: "p \<noteq> a" using p(2) by simp
    have lp: "linked h p" by (rule low[OF p(3)]) (use dp in simp)
    from fail_of_node[OF wf p(3)] obtain f where f: "fail_of h p = Some f" "f < length h"
      "path h f = lsuf (present h) (tl (path h p))" by blast
    have flp: "failureLink (h1 ! p) = Some f"
      using linked_out_props(3)[OF lp False] f(1) h1b[OF pna] by simp
    have res: "connectFailureLink a h = connect_loop a (Some f) h1"
      using a p(1,3) False flp
      by (simp add: connectFailureLink_def h1_def[symmetric] Let_def h1a deref_def len1)
    have df: "Suc (length (path h f)) < d"
      using fail_of_shorter[OF wf p(3) p0 f(1)] dp by simp
    \<comment> \<open>the loop runs on h1, which agrees with h except for the failure link of a\<close>
    have lk1: "linked h1 b" if "b < length h1" "length (path h1 b) \<le> d - 1" for b
    proof -
      from that have b: "b < length h" by (simp add: len1)
      have "length (path h b) < d" using that(2) same_trie_path[OF st1 b] dp by simp
      then have "b \<noteq> a" using da by auto
      then show ?thesis
        using linked_cong[OF st1 wf b] low[OF b \<open>length (path h b) < d\<close>] h1b by simp
    qed
    have f1: "f < length h1" using f(2) by (simp add: len1)
    have pf1: "path h1 f = path h f" by (rule same_trie_path[OF st1 f(2)])
    have pres1: "present h1 = present h" by (rule same_trie_present[OF st1 wf])
    have c1: "c = parentChar (h1 ! a)" by (simp add: h1a c_def)
    have fk: "length (path h1 f) \<le> d - 1" using df pf1 by simp
    have a1: "a < length h1" using a by (simp add: len1)
    note loop = connect_loop_spec[OF wf1 a1 c1 lk1 f1 fk, unfolded pf1 pres1
        same_trie_walk_root[OF st1 wf]]
    have tl_a: "tl (path h a) = tl (path h p) @ [c]" using pa pne by simp
    have lsc: "lsufc (present h) c (tl (path h p)) = lsufc (present h) c (path h f)"
      unfolding f(3) by (rule lsufc_lsuf[OF present_closed, symmetric])
    have fa: "lsuf (present h) (tl (path h a)) =
        (case lsufc (present h) c (path h f) of Some y \<Rightarrow> y @ [c] | None \<Rightarrow> [])"
      unfolding tl_a lsuf_snoc lsc ..
    show ?thesis
    proof (cases "lsufc (present h) c (path h f)")
      case None
      with loop have "connect_loop a (Some f) h1 = Some h1" by simp
      moreover have "lsuf (present h) (tl (path h a)) = []" using fa None by simp
      ultimately show ?thesis using linked_h1 res st1 others by auto
    next
      case (Some y)
      with loop obtain t where t: "walk h root (y @ [c]) = Some t" "t < length h1"
        "path h1 t = y @ [c]"
        and r: "connect_loop a (Some f) h1 =
            Some (h1[a := (h1 ! a)\<lparr>failureLink := Some t,
                      outputLink := (if isWord (h1 ! t) then Some t else outputLink (h1 ! t))\<rparr>])"
        by auto
      have tl: "t < length h" using t(2) by (simp add: len1)
      have pt: "path h t = y @ [c]" using t(3) same_trie_path[OF st1 tl] by simp
      have "length y \<le> length (path h f)"
        using lsufc_Some[OF Some] by (auto dest: suffix_length_le)
      then have dt: "length (path h t) < d" using pt df by simp
      then have ta: "t \<noteq> a" using da by auto
      have t0: "t \<noteq> 0"
      proof
        assume "t = 0"
        then have "path h t = []" using path_root[OF wf] by simp
        then show False using pt by simp
      qed
      then have tr: "t \<noteq> root" by (simp add: root_def)
      have lt: "linked h t" by (rule low[OF tl dt])
      have ptl: "path h t = lsuf (present h) (tl (path h a))" using fa Some pt by simp
      define X where "X = (if isWord (h ! t) then Some t else outputLink (h ! t))"
      define h' where "h' = h1[a := (h1 ! a)\<lparr>failureLink := Some t, outputLink := X\<rparr>]"
      have r': "connectFailureLink a h = Some h'"
        using res r by (simp add: h'_def X_def h1b[OF ta])
      have h'a: "failureLink (h' ! a) = Some t" "outputLink (h' ! a) = X"
        using a by (simp_all add: h'_def len1)
      have h'b: "h' ! b = h ! b" if "b \<noteq> a" for b using that by (simp add: h'_def h1_def)
      have st': "same_trie h h'"
        unfolding same_trie_def using a by (simp add: h'_def h1_def nth_list_update)
      have "linked h' a"
      proof (rule linked_transfer[OF st' wf a ar])
        show "failureLink (h' ! a) = fail_of h a"
          using t(1) fa Some by (simp add: h'a fail_of_def)
        show "l < length h \<and> length (path h l) < length (path h a)"
          if "outputLink (h' ! a) = Some l" for l
        proof (cases "isWord (h ! t)")
          case True
          then show ?thesis using that tl dt da by (simp add: h'a X_def)
        next
          case False
          then have "outputLink (h ! t) = Some l" using that by (simp add: h'a X_def)
          from linked_out_props(1)[OF lt tr this] dt da show ?thesis by simp
        qed
        show "outputLink (h' ! a) = out_of h a" if "\<not> isWord (h ! root)"
          using out_of_fail_node[OF wf tl t0 ptl] linked_out_props(2)[OF lt tr that]
          by (simp add: h'a X_def)
      qed
      then show ?thesis using r' st' h'b by blast
    qed
  qed
qed

subsection \<open>fillFailureLinks\<close>

lemma connect_inv:
  assumes inv: "link_inv d h" and a: "a \<in> level_nodes h d"
  shows "\<exists>h'. connectFailureLink a h = Some h' \<and> same_trie h h' \<and> link_inv d h' \<and>
           linked h' a \<and> (\<forall>b < length h. linked h b \<longrightarrow> linked h' b)"
proof -
  from a have al: "a < length h" and da: "length (path h a) = d" by (simp_all add: level_nodes_def)
  from inv have wf: "wf_trie h" by (simp add: link_inv_def)
  from connect_spec[OF inv al da] obtain h' where h': "connectFailureLink a h = Some h'"
    "same_trie h h'" "\<And>b. b < length h \<Longrightarrow> b \<noteq> a \<Longrightarrow> h' ! b = h ! b" "linked h' a"
    by blast
  have len: "length h' = length h" by (rule same_trie_length[OF h'(2)])
  have keep: "linked h' b" if "b < length h" "linked h b" for b
  proof (cases "b = a")
    case True
    then show ?thesis using h'(4) by simp
  next
    case False
    then show ?thesis using linked_cong[OF h'(2) wf that(1)] h'(3)[OF that(1) False] that(2) by simp
  qed
  have out: "outputLink (h' ! b) = None \<or> linked h' b" if "b < length h" for b
  proof (cases "b = a")
    case True
    then show ?thesis using h'(4) by simp
  next
    case False
    from inv that have "outputLink (h ! b) = None \<or> linked h b" by (simp add: link_inv_def)
    then show ?thesis using keep[OF that] h'(3)[OF that False] by auto
  qed
  have r: "root < length h" using wf_trie_root[OF wf] by (simp add: root_def)
  have "linked h root" using inv by (simp add: link_inv_def)
  then have lr: "linked h' root" by (rule keep[OF r])
  have low: "linked h' b" if "b < length h" "length (path h' b) < d" for b
  proof -
    have "length (path h b) < d" using that same_trie_path[OF h'(2) that(1)] by simp
    with inv that(1) have "linked h b" by (simp add: link_inv_def)
    then show ?thesis by (rule keep[OF that(1)])
  qed
  have "link_inv d h'"
    unfolding link_inv_def using same_trie_wf[OF h'(2) wf] lr low out len by simp
  then show ?thesis using h'(1,2,4) keep by blast
qed

lemma fill_level_spec:
  assumes "link_inv d h" "\<And>a. a \<in> set xs \<Longrightarrow> a \<in> level_nodes h d"
  shows "\<exists>h'. fill_level ord (length xs) (map Some xs @ q) h =
           Some (q @ concat (map (kids ord h) xs), h') \<and> same_trie h h' \<and> link_inv d h' \<and>
           (\<forall>b < length h. linked h b \<longrightarrow> linked h' b) \<and> (\<forall>a \<in> set xs. linked h' a)"
  using assms
proof (induction xs arbitrary: q h)
  case Nil
  then show ?case by (simp add: same_trie_refl)
next
  case (Cons x xs)
  have x: "x \<in> level_nodes h d" using Cons.prems(2) by simp
  then have xl: "x < length h" by (simp add: level_nodes_def)
  from connect_inv[OF Cons.prems(1) x] obtain h1 where h1: "connectFailureLink x h = Some h1"
    "same_trie h h1" "link_inv d h1" "linked h1 x" "\<And>b. b < length h \<Longrightarrow> linked h b \<Longrightarrow> linked h1 b"
    by blast
  have len: "length h1 = length h" by (rule same_trie_length[OF h1(2)])
  have k: "map snd (iterate ord (children (h1 ! x))) = kids ord h x"
    using same_trie_kids[OF h1(2) xl] by (simp add: kids_def)
  have lv: "\<And>a. a \<in> set xs \<Longrightarrow> a \<in> level_nodes h1 d"
    using Cons.prems(2) same_trie_level[OF h1(2)] by simp
  from Cons.IH[OF h1(3) lv, of "q @ kids ord h x"] obtain h' where
    r: "fill_level ord (length xs) (map Some xs @ q @ kids ord h x) h1 =
          Some ((q @ kids ord h x) @ concat (map (kids ord h1) xs), h')"
      "same_trie h1 h'" "link_inv d h'" "\<And>b. b < length h1 \<Longrightarrow> linked h1 b \<Longrightarrow> linked h' b"
      "\<And>a. a \<in> set xs \<Longrightarrow> linked h' a" by auto
  have "map (kids ord h1) xs = map (kids ord h) xs"
    using Cons.prems(2) same_trie_kids[OF h1(2)] by (simp add: level_nodes_def)
  then have cc: "concat (map (kids ord h1) xs) = concat (map (kids ord h) xs)"
    by (rule arg_cong)
  have res: "fill_level ord (length (x # xs)) (map Some (x # xs) @ q) h =
      Some (q @ concat (map (kids ord h) (x # xs)), h')"
    using r(1) xl h1(1) k cc by (simp add: deref_def)
  have keep: "linked h' b" if "b < length h" "linked h b" for b
    using r(4)[of b] h1(5)[OF that] that(1) len by simp
  have "linked h' x" using r(4)[of x] h1(4) xl len by simp
  then have all: "\<forall>a \<in> set (x # xs). linked h' a" using r(5) by simp
  show ?case
    using res same_trie_trans[OF h1(2) r(2)] r(3) keep all by blast
qed

lemma fill_loop_spec:
  assumes "link_inv d h" "set q = Some ` level_nodes h d"
  shows "\<exists>h'. fill_loop ord q h = Some h' \<and> same_trie h h' \<and> (\<forall>b < length h'. linked h' b)"
  using assms
proof (induction "length h - d" arbitrary: q h d rule: less_induct)
  case less
  from less.prems(1) have wf: "wf_trie h" by (simp add: link_inv_def)
  show ?case
  proof (cases "q = []")
    case True
    then have e: "level_nodes h d = {}" using less.prems(2) by simp
    have "linked h b" if b: "b < length h" for b
    proof -
      have "length (path h b) < d"
      proof (rule ccontr)
        assume "\<not> length (path h b) < d"
        then have "d \<le> length (path h b)" by simp
        from level_empty_up[OF wf e this] have "b \<notin> level_nodes h (length (path h b))" by simp
        then show False using b by (simp add: level_nodes_def)
      qed
      with less.prems(1) b show ?thesis by (simp add: link_inv_def)
    qed
    moreover have "fill_loop ord q h = Some h"
      using True by (subst fill_loop.simps) simp
    ultimately show ?thesis by (simp add: same_trie_refl)
  next
    case False
    from queue_of_level[OF less.prems(2)] obtain xs where xs: "q = map Some xs"
      "set xs = level_nodes h d" by blast
    with False obtain a where "a \<in> level_nodes h d" by (cases xs) auto
    from level_bound[OF wf this] have d: "d < length h" .
    have lv: "\<And>a. a \<in> set xs \<Longrightarrow> a \<in> level_nodes h d" using xs(2) by simp
    from fill_level_spec[OF less.prems(1) lv, where xs = xs and q = "[]" and ord = ord] obtain h1 where
      r: "fill_level ord (length xs) (map Some xs) h = Some (concat (map (kids ord h) xs), h1)"
        "same_trie h h1" "link_inv d h1" "\<And>a. a \<in> set xs \<Longrightarrow> linked h1 a" by auto
    have wf1: "wf_trie h1" by (rule same_trie_wf[OF r(2) wf])
    have len: "length h1 = length h" by (rule same_trie_length[OF r(2)])
    have lev: "level_nodes h1 = level_nodes h" using same_trie_level[OF r(2)] by (simp add: fun_eq_iff)
    have q1: "set (concat (map (kids ord h) xs)) = Some ` level_nodes h1 (Suc d)"
      using next_level[OF wf xs(2)] lev by simp
    have "linked h1 b" if "b < length h1" "length (path h1 b) < Suc d" for b
    proof (cases "length (path h1 b) < d")
      case True
      with r(3) that(1) show ?thesis by (simp add: link_inv_def)
    next
      case False
      with that have "b \<in> level_nodes h1 d" by (simp add: level_nodes_def)
      then show ?thesis using r(4)[of b] lev xs(2) by simp
    qed
    then have inv1: "link_inv (Suc d) h1"
      using r(3) unfolding link_inv_def by blast
    have "length h1 - Suc d < length h - d" using d len by simp
    from less.hyps[OF this inv1 q1] obtain h' where
      h': "fill_loop ord (concat (map (kids ord h) xs)) h1 = Some h'" "same_trie h1 h'"
        "\<forall>b < length h'. linked h' b" by blast
    have "fill_loop ord q h = Some h'"
      using False r(1) h'(1) xs(1) by (subst fill_loop.simps) simp
    then show ?thesis
      using same_trie_trans[OF r(2) h'(2)] h'(3) by blast
  qed
qed

lemma trie_of_link_inv: "trie_of W h \<Longrightarrow> link_inv 0 h"
proof -
  assume T: "trie_of W h"
  then have wf: "wf_trie h" by (simp add: trie_of_def)
  have "root < length h" using wf_trie_root[OF wf] by (simp add: root_def)
  with T have "linked h root" by (simp add: trie_of_def linked_def)
  moreover from T have "\<forall>b < length h. outputLink (h ! b) = None" by (simp add: trie_of_def)
  ultimately show ?thesis using wf by (simp add: link_inv_def)
qed

lemma fillFailureLinks_spec:
  assumes "trie_of W h"
  shows "\<exists>h'. fillFailureLinks ord h = Some h' \<and> same_trie h h' \<and> (\<forall>b < length h'. linked h' b)"
proof -
  from assms have wf: "wf_trie h" by (simp add: trie_of_def)
  show ?thesis
    unfolding fillFailureLinks_def
    by (rule fill_loop_spec[OF trie_of_link_inv[OF assms]])
       (simp add: level_0[OF wf] root_def)
qed

subsection \<open>The loops of the scanner\<close>

lemma all_linked_root:
  assumes "all_linked h"
  shows "failureLink (h ! root) = None" "outputLink (h ! root) = None" "root < length h"
proof -
  from assms have wf: "wf_trie h" by (simp add: all_linked_def)
  show r: "root < length h" using wf_trie_root[OF wf] by (simp add: root_def)
  with assms have "linked h root" by (simp add: all_linked_def)
  then show "failureLink (h ! root) = None" "outputLink (h ! root) = None"
    by (simp_all add: linked_def)
qed

lemma all_linked_fail:
  assumes "all_linked h" "n < length h" "n \<noteq> root"
  obtains f where "failureLink (h ! n) = Some f" "f < length h"
    "path h f = lsuf (present h) (tl (path h n))" "length (path h f) < length (path h n)"
proof -
  from assms have wf: "wf_trie h" and l: "linked h n" by (simp_all add: all_linked_def)
  from l assms(3) have fl: "failureLink (h ! n) = fail_of h n" by (simp add: linked_def)
  from fail_of_node[OF wf assms(2)] obtain f where f: "fail_of h n = Some f" "f < length h"
    "path h f = lsuf (present h) (tl (path h n))" by blast
  have "n \<noteq> 0" using assms(3) by (simp add: root_def)
  from fail_of_shorter[OF wf assms(2) this f(1)] fl f that show thesis by simp
qed

lemma fail_loop_spec:
  assumes al: "all_linked h"
  shows "n < length h \<Longrightarrow>
    \<exists>n1. fail_loop n c h = Some n1 \<and> n1 < length h \<and>
      path h n1 = (case lsufc (present h) c (path h n) of Some y \<Rightarrow> y | None \<Rightarrow> []) \<and>
      (contains (children (h ! n1)) c \<longleftrightarrow> lsufc (present h) c (path h n) \<noteq> None)"
proof (induction "length (path h n)" arbitrary: n rule: less_induct)
  case less
  from al have wf: "wf_trie h" by (simp add: all_linked_def)
  note n = less.prems
  show ?case
  proof (cases "contains (children (h ! n)) c")
    case True
    have "present h (path h n @ [c])" using present_snoc[OF wf n] True by simp
    then have ls: "lsufc (present h) c (path h n) = Some (path h n)"
      using lsufc_unfold[of "present h" c "path h n"] by simp
    have "fail_loop n c h = Some n"
      by (subst fail_loop.simps) (use n True in simp)
    then show ?thesis using ls n True by simp
  next
    case False
    have nP: "\<not> present h (path h n @ [c])" using present_snoc[OF wf n] False by simp
    show ?thesis
    proof (cases "n = root")
      case True
      have "fail_loop n c h = Some n"
        by (subst fail_loop.simps) (use n True all_linked_root(1)[OF al] in simp)
      moreover have "lsufc (present h) c (path h n) = None"
        using nP True path_root[OF wf] by (simp add: root_def)
      moreover have "path h n = []" using True path_root[OF wf] by (simp add: root_def)
      ultimately show ?thesis using n False by simp
    next
      case nr: False
      from all_linked_fail[OF al n nr] obtain f where f: "failureLink (h ! n) = Some f"
        "f < length h" "path h f = lsuf (present h) (tl (path h n))"
        "length (path h f) < length (path h n)" by blast
      have step: "fail_loop n c h = fail_loop f c h"
        by (subst fail_loop.simps) (use n False f(1) in simp)
      have ne: "path h n \<noteq> []" using f(4) by auto
      have eq: "lsufc (present h) c (path h n) = lsufc (present h) c (path h f)"
        unfolding f(3) by (rule lsufc_fail[OF present_closed ne nP])
      from less.hyps[OF f(4) f(2)] show ?thesis unfolding step eq .
    qed
  qed
qed

lemma all_linked_out:
  assumes "all_linked h" "n < length h" "outputLink (h ! n) = Some l"
  shows "l < length h \<and> length (path h l) < length (path h n) \<and> n \<noteq> root"
proof -
  have nr: "n \<noteq> root" using all_linked_root(2)[OF assms(1)] assms(3) by auto
  from assms have "linked h n" by (simp add: all_linked_def)
  from linked_out_props(1)[OF this nr assms(3)] nr show ?thesis by simp
qed

lemma output_loop_spec:
  assumes al: "all_linked h"
  shows "cur < length h \<Longrightarrow>
    \<exists>out'. output_loop cur i h out = Some (out @ out') \<and>
      (good h \<longrightarrow> out' = map (\<lambda>w. (w, i)) (wsufs (is_word h) (tl (path h cur))))"
proof (induction "length (path h cur)" arbitrary: cur out rule: less_induct)
  case less
  from al have wf: "wf_trie h" by (simp add: all_linked_def)
  note cur = less.prems
  show ?case
  proof (cases "outputLink (h ! cur)")
    case None
    have r: "output_loop cur i h out = Some (out @ [])"
      by (subst output_loop.simps) (use cur None in simp)
    have "wsufs (is_word h) (tl (path h cur)) = []" if g: "good h"
    proof (cases "cur = root")
      case True
      then have "path h cur = []" using path_root[OF wf] by (simp add: root_def)
      then show ?thesis by simp
    next
      case False
      from al cur have "linked h cur" by (simp add: all_linked_def)
      from linked_out_props(2)[OF this False] g None have "out_of h cur = None"
        by (simp add: good_def)
      moreover have "walk h root s \<noteq> None" if "osuf (is_word h) (tl (path h cur)) = Some s" for s
        using osuf_Some[OF that] is_word_present[of h s] by (simp add: present_def)
      ultimately have "osuf (is_word h) (tl (path h cur)) = None"
        by (cases "osuf (is_word h) (tl (path h cur))") (auto simp: out_of_def)
      then show ?thesis by (intro wsufs_none) (rule osuf_None)
    qed
    with r show ?thesis by (intro exI[of _ "[]"]) simp
  next
    case (Some l)
    from all_linked_out[OF al cur Some] have l: "l < length h"
      "length (path h l) < length (path h cur)" "cur \<noteq> root" by auto
    have step: "output_loop cur i h out = output_loop l i h (out @ [(pattern (h ! l), i)])"
      by (subst output_loop.simps) (use cur Some l(1) in simp)
    from less.hyps[OF l(2) l(1), of "out @ [(pattern (h ! l), i)]"] obtain out'' where
      o: "output_loop l i h (out @ [(pattern (h ! l), i)]) = Some ((out @ [(pattern (h ! l), i)]) @ out'')"
        "good h \<longrightarrow> out'' = map (\<lambda>w. (w, i)) (wsufs (is_word h) (tl (path h l)))"
      by blast
    have "(pattern (h ! l), i) # out'' = map (\<lambda>w. (w, i)) (wsufs (is_word h) (tl (path h cur)))"
      if g: "good h"
    proof -
      from al cur have "linked h cur" by (simp add: all_linked_def)
      from linked_out_props(2)[OF this l(3)] g Some have oo: "out_of h cur = Some l"
        by (simp add: good_def)
      then obtain s where s: "osuf (is_word h) (tl (path h cur)) = Some s" "walk h root s = Some l"
        by (auto simp: out_of_def split: option.splits)
      have pl: "path h l = s" using walk_iff[OF wf, of s l] s(2) by (simp add: root_def)
      from osuf_Some[OF s(1)] have ws: "is_word h s" by simp
      then have iw: "isWord (h ! l)" using is_word_path[OF wf l(1)] pl by simp
      then have pat: "pattern (h ! l) = s" using g l(1) pl by (simp add: good_def)
      have sne: "s \<noteq> []" using ws g by (auto simp: good_def is_word_Nil)
      have "wsufs (is_word h) (tl (path h cur)) = s # wsufs (is_word h) (tl s)"
        by (rule wsufs_osuf[OF s(1) sne])
      then show ?thesis using o(2) g pat pl by simp
    qed
    then show ?thesis
      unfolding step using o(1) by (intro exI[of _ "(pattern (h ! l), i) # out''"]) simp
  qed
qed

lemma report_spec:
  assumes al: "all_linked h" and n: "n < length h"
  shows "\<exists>out'. report n i h out = Some (n, h, out @ out') \<and>
      (good h \<longrightarrow> out' = map (\<lambda>w. (w, i)) (wsufs (is_word h) (path h n)))"
proof -
  from al have wf: "wf_trie h" by (simp add: all_linked_def)
  define out1 where "out1 = (if isWord (h ! n) then out @ [(pattern (h ! n), i)] else out)"
  from output_loop_spec[OF al n, of i out1] obtain out'' where
    o: "output_loop n i h out1 = Some (out1 @ out'')"
      "good h \<longrightarrow> out'' = map (\<lambda>w. (w, i)) (wsufs (is_word h) (tl (path h n)))" by blast
  have r: "report n i h out = Some (n, h, out1 @ out'')"
    using n o(1) by (simp add: report_def out1_def[symmetric] Let_def)
  define pre where "pre = (if isWord (h ! n) then [(pattern (h ! n), i)] else [])"
  have o1: "out1 = out @ pre" by (simp add: out1_def pre_def)
  have "pre @ out'' = map (\<lambda>w. (w, i)) (wsufs (is_word h) (path h n))" if g: "good h"
  proof (cases "path h n")
    case Nil
    then have "n = root" using path_eq_Nil[OF wf n] by (simp add: root_def)
    then have "pre = []" using g by (simp add: pre_def good_def)
    then show ?thesis using o(2) g Nil by simp
  next
    case (Cons x t)
    have iw: "is_word h (x # t) = isWord (h ! n)" using is_word_path[OF wf n] Cons by simp
    have "pre = (if isWord (h ! n) then [(x # t, i)] else [])"
      using g n Cons by (simp add: pre_def good_def)
    then show ?thesis using o(2) g Cons iw by simp
  qed
  then show ?thesis using r o1 by (intro exI[of _ "pre @ out''"]) simp
qed

subsection \<open>The scanning loop\<close>

lemma wsufs_state: "wsufs (is_word h) (lsuf (present h) t) = wsufs (is_word h) t"
  by (rule wsufs_lsuf) (rule is_word_present)

lemma scan_step_spec:
  assumes al: "all_linked h" and n: "n < length h" and st: "path h n = lsuf (present h) t"
  shows "\<exists>n' out'. scan_step i c n h out = Some (n', h, out @ out') \<and> n' < length h \<and>
      path h n' = lsuf (present h) (t @ [c]) \<and>
      (good h \<longrightarrow> out' = map (\<lambda>w. (w, i)) (wsufs (is_word h) (t @ [c])))"
proof -
  from al have wf: "wf_trie h" by (simp add: all_linked_def)
  have ls: "lsufc (present h) c t = lsufc (present h) c (path h n)"
    unfolding st by (rule lsufc_lsuf[OF present_closed, symmetric])
  have nxt: "lsuf (present h) (t @ [c]) =
      (case lsufc (present h) c (path h n) of Some y \<Rightarrow> y @ [c] | None \<Rightarrow> [])"
    unfolding lsuf_snoc ls ..
  \<comment> \<open>taking the edge c from a node m whose path is the right suffix, then reporting\<close>
  have take_edge: "\<exists>n' out'. (case child_ref h m c of (p, h1) \<Rightarrow>
          case deref h1 p of None \<Rightarrow> None | Some n2 \<Rightarrow> report n2 i h1 out) = Some (n', h, out @ out') \<and>
        n' < length h \<and> path h n' = lsuf (present h) (t @ [c]) \<and>
        (good h \<longrightarrow> out' = map (\<lambda>w. (w, i)) (wsufs (is_word h) (t @ [c])))"
    if m: "m < length h" "contains (children (h ! m)) c"
      and pm: "lsufc (present h) c (path h n) = Some (path h m)" for m
  proof -
    from wf_child_Some[OF wf m] obtain n2 where n2: "map_of (children (h ! m)) c = Some (Some n2)"
      "n2 < length h" "path h n2 = path h m @ [c]" by blast
    have p2: "path h n2 = lsuf (present h) (t @ [c])" using nxt pm n2(3) by simp
    from report_spec[OF al n2(2), of i out] obtain out' where
      r: "report n2 i h out = Some (n2, h, out @ out')"
        "good h \<longrightarrow> out' = map (\<lambda>w. (w, i)) (wsufs (is_word h) (path h n2))" by blast
    have "wsufs (is_word h) (path h n2) = wsufs (is_word h) (t @ [c])"
      unfolding p2 by (rule wsufs_state)
    with r(2) have "good h \<longrightarrow> out' = map (\<lambda>w. (w, i)) (wsufs (is_word h) (t @ [c]))"
      by simp
    moreover have "(case child_ref h m c of (p, h1) \<Rightarrow>
          case deref h1 p of None \<Rightarrow> None | Some n2 \<Rightarrow> report n2 i h1 out) = Some (n2, h, out @ out')"
      using n2(1,2) r(1) by (simp add: child_ref_present deref_def)
    ultimately show ?thesis using n2(2) p2 by blast
  qed
  show ?thesis
  proof (cases "contains (children (h ! n)) c")
    case True
    have "present h (path h n @ [c])" using present_snoc[OF wf n] True by simp
    then have "lsufc (present h) c (path h n) = Some (path h n)"
      using lsufc_unfold[of "present h" c "path h n"] by simp
    from take_edge[OF n True this] show ?thesis
      using n True by (simp add: scan_step_def)
  next
    case False
    from fail_loop_spec[OF al n, of c] obtain n1 where n1: "fail_loop n c h = Some n1"
      "n1 < length h"
      "path h n1 = (case lsufc (present h) c (path h n) of Some y \<Rightarrow> y | None \<Rightarrow> [])"
      "contains (children (h ! n1)) c \<longleftrightarrow> lsufc (present h) c (path h n) \<noteq> None" by blast
    show ?thesis
    proof (cases "contains (children (h ! n1)) c")
      case True
      with n1(4) obtain y where y: "lsufc (present h) c (path h n) = Some y" by auto
      with n1(3) have "lsufc (present h) c (path h n) = Some (path h n1)" by simp
      from take_edge[OF n1(2) True this] show ?thesis
        using n False n1(1) True by (simp add: scan_step_def)
    next
      case nc: False
      with n1(4) have none: "lsufc (present h) c (path h n) = None" by simp
      have r: "scan_step i c n h out = Some (n1, h, out @ [])"
        using n False n1(1) nc by (simp add: scan_step_def)
      have p1: "path h n1 = lsuf (present h) (t @ [c])" using nxt none n1(3) by simp
      have "lsuf (present h) (t @ [c]) = []" using nxt none by simp
      with wsufs_state[of h "t @ [c]"] have "wsufs (is_word h) (t @ [c]) = []" by simp
      then show ?thesis using r n1(2) p1 by (intro exI[of _ n1] exI[of _ "[]"]) simp
    qed
  qed
qed

lemma scan_chars_spec:
  assumes al: "all_linked h"
  shows "n < length h \<Longrightarrow> path h n = lsuf (present h) t \<Longrightarrow>
    \<exists>n' out'. scan_chars (length t) cs n h out = Some (n', h, out @ out') \<and>
      (good h \<longrightarrow> out' = concat (map (\<lambda>j. map (\<lambda>w. (w, j))
          (wsufs (is_word h) (take (Suc j) (t @ cs)))) [length t..<length t + length cs]))"
proof (induction cs arbitrary: n t out)
  case Nil
  then show ?case by (intro exI[of _ n] exI[of _ "[]"]) simp
next
  case (Cons c cs)
  from scan_step_spec[OF al Cons.prems, of "length t" c out] obtain n1 out1 where
    s: "scan_step (length t) c n h out = Some (n1, h, out @ out1)" "n1 < length h"
      "path h n1 = lsuf (present h) (t @ [c])"
      "good h \<longrightarrow> out1 = map (\<lambda>w. (w, length t)) (wsufs (is_word h) (t @ [c]))" by blast
  from Cons.IH[OF s(2,3), of "out @ out1"] obtain n' out2 where
    r: "scan_chars (length (t @ [c])) cs n1 h (out @ out1) = Some (n', h, (out @ out1) @ out2)"
      "good h \<longrightarrow> out2 = concat (map (\<lambda>j. map (\<lambda>w. (w, j))
          (wsufs (is_word h) (take (Suc j) ((t @ [c]) @ cs))))
          [length (t @ [c])..<length (t @ [c]) + length cs])" by blast
  have res: "scan_chars (length t) (c # cs) n h out = Some (n', h, out @ (out1 @ out2))"
    using s(1) r(1) by simp
  have "out1 @ out2 = concat (map (\<lambda>j. map (\<lambda>w. (w, j))
          (wsufs (is_word h) (take (Suc j) (t @ c # cs)))) [length t..<length t + length (c # cs)])"
    if g: "good h"
  proof -
    define F where "F j = map (\<lambda>w. (w, j)) (wsufs (is_word h) (take (Suc j) (t @ c # cs)))" for j
    have tk: "take (Suc (length t)) (t @ c # cs) = t @ [c]" by simp
    have A: "out1 = F (length t)" using s(4) g unfolding F_def tk by simp
    have B: "out2 = concat (map F [Suc (length t)..<Suc (length t) + length cs])"
      using r(2) g unfolding F_def by simp
    have "[length t..<length t + length (c # cs)] =
        length t # [Suc (length t)..<Suc (length t) + length cs]"
      using upt_conv_Cons[of "length t" "Suc (length t + length cs)"] by simp
    then have "concat (map F [length t..<length t + length (c # cs)]) = out1 @ out2"
      unfolding A B by simp
    then show ?thesis unfolding F_def by simp
  qed
  with res show ?case by blast
qed

subsection \<open>The 32-bit loop index\<close>

lemma sint_of_nat_small:
  assumes "k < 2 ^ 31"
  shows "sint (of_nat k :: 32 word) = int k"
proof -
  have "uint (of_nat k :: 32 word) = int k" using assms by (simp add: uint_nat unat_of_nat)
  then have "sint (of_nat k :: 32 word) = signed_take_bit 31 (int k)" by (simp add: sint_uint)
  also have "\<dots> = int k" using assms by (intro signed_take_bit_int_eq_self) simp_all
  finally show ?thesis .
qed

lemma to_size_t_small: "k < 2 ^ 31 \<Longrightarrow> to_size_t (of_nat k) = k"
  by (simp add: to_size_t_def sint_of_nat_small)

lemma to_size_t_wrapped: "to_size_t (of_nat (2 ^ 31)) = 2 ^ 64 - 2 ^ 31"
  by (simp add: to_size_t_def)

lemma to_size_t_last: "to_size_t (- 1) = 2 ^ 64 - 1"
  by (simp add: to_size_t_def)

lemma size_of_less: "size_of s < 2 ^ 64"
  by (simp add: size_of_def)

lemma size_of_length: "length s < 2 ^ 64 \<Longrightarrow> size_of s = length s"
  by (simp add: size_of_def)

lemma unat_succ:
  assumes "(i :: 32 word) \<noteq> - 1"
  shows "unat (i + 1) = unat i + 1"
proof -
  have "unat i < 2 ^ 32" using unsigned_less[of i] by simp
  moreover have "unat i \<noteq> 2 ^ 32 - 1"
  proof
    assume "unat i = 2 ^ 32 - 1"
    then have "of_nat (unat i) = (of_nat (2 ^ 32 - 1) :: 32 word)" by simp
    then have "i = - 1" by simp
    with assms show False by simp
  qed
  ultimately have "unat i + 1 < 2 ^ 32" by simp
  then show ?thesis by (simp add: unat_word_ariths)
qed

text \<open>
  Up to position \<open>2^31\<close> the loop visits the characters of the text one by one; there the
  index wraps to a negative number, the comparison with the size fails, and the loop ends.
\<close>

lemma scan_loop_chars:
  assumes L: "length T \<le> 2 ^ 64 - 2 ^ 31" and M: "M = min (length T) (2 ^ 31)"
  shows "k \<le> M \<Longrightarrow>
    scan_loop T (of_nat k) n h out = scan_chars k (drop k (take M T)) n h out"
proof (induction "M - k" arbitrary: k n h out)
  case 0
  then have k: "k = M" by simp
  from L have sz: "size_of T = length T" by (intro size_of_length) simp
  have "\<not> to_size_t (of_nat M) < size_of T"
  proof (cases "length T < 2 ^ 31")
    case True
    then have "M = length T" "M < 2 ^ 31" using M by simp_all
    then show ?thesis using sz by (simp add: to_size_t_small)
  next
    case False
    then have "M = 2 ^ 31" using M by simp
    then have "to_size_t (of_nat M) = 2 ^ 64 - 2 ^ 31" by (simp add: to_size_t_def)
    then show ?thesis using sz L by simp
  qed
  then have "scan_loop T (of_nat k) n h out = Some (n, h, out)"
    unfolding k by (subst scan_loop.simps) simp
  moreover have "drop k (take M T) = []" using k by simp
  ultimately show ?case by simp
next
  case (Suc d)
  then have k: "k < M" by simp
  then have k2: "k < 2 ^ 31" and kT: "k < length T" using M by simp_all
  from L have sz: "size_of T = length T" by (intro size_of_length) simp
  have ts: "to_size_t (of_nat k) = k" by (rule to_size_t_small[OF k2])
  have dr: "drop k (take M T) = T ! k # drop (Suc k) (take M T)"
    using k kT M Cons_nth_drop_Suc[of k "take M T"] by simp
  have nx: "(of_nat k :: 32 word) + 1 = of_nat (Suc k)" by simp
  have IH: "scan_loop T (of_nat (Suc k)) n' h' out' =
      scan_chars (Suc k) (drop (Suc k) (take M T)) n' h' out'" for n' h' out'
    using Suc.hyps(1)[of "Suc k" n' h' out'] Suc.hyps(2) k by simp
  have "scan_loop T (of_nat k) n h out =
      Option.bind (scan_step k (T ! k) n h out)
        (\<lambda>r. scan_loop T (of_nat (Suc k)) (fst r) (fst (snd r)) (snd (snd r)))"
    by (subst scan_loop.simps) (simp add: ts sz kT nx del: of_nat_Suc)
  also have "\<dots> = scan_chars k (T ! k # drop (Suc k) (take M T)) n h out"
    by (cases "scan_step k (T ! k) n h out") (auto simp: IH simp del: of_nat_Suc)
  finally show ?case unfolding dr .
qed

text \<open>The loop returns for every text, with the memory it was given.\<close>

lemma scan_loop_total:
  assumes al: "all_linked h"
  shows "n < length h \<Longrightarrow> \<exists>n' out'. scan_loop T i n h out = Some (n', h, out @ out')"
proof (induction "(2 :: nat) ^ 32 - 1 - unat i" arbitrary: i n out rule: less_induct)
  case less
  from al have wf: "wf_trie h" by (simp add: all_linked_def)
  show ?case
  proof (cases "to_size_t i < size_of T")
    case False
    then have "scan_loop T i n h out = Some (n, h, out @ [])"
      by (subst scan_loop.simps) simp
    then show ?thesis by blast
  next
    case True
    have ne: "i \<noteq> - 1"
    proof
      assume "i = - 1"
      with True size_of_less[of T] show False by (simp add: to_size_t_last)
    qed
    have st: "path h n = lsuf (present h) (path h n)"
      using lsuf_id[of "present h" "path h n"] present_path[OF wf less.prems] by simp
    from scan_step_spec[OF al less.prems st, of "to_size_t i" "T ! to_size_t i" out]
    obtain n1 out1 where
      s: "scan_step (to_size_t i) (T ! to_size_t i) n h out = Some (n1, h, out @ out1)"
        "n1 < length h" by blast
    have "unat (i + 1) < 2 ^ LENGTH(32)" by (rule unsigned_less)
    then have "(2 :: nat) ^ 32 - 1 - unat (i + 1) < 2 ^ 32 - 1 - unat i"
      using unat_succ[OF ne] by simp
    from less.hyps[OF this s(2), of "out @ out1"] obtain n' out2 where
      r: "scan_loop T (i + 1) n1 h (out @ out1) = Some (n', h, (out @ out1) @ out2)" by blast
    have "scan_loop T i n h out = Some (n', h, out @ (out1 @ out2))"
      by (subst scan_loop.simps) (simp add: True s(1) r)
    then show ?thesis by blast
  qed
qed

subsection \<open>The constructor and findPatterns\<close>

lemma fill_ac_inv:
  assumes T: "trie_of W h" and st: "same_trie h h'" and lk: "\<forall>b < length h'. linked h' b"
  shows "ac_inv W h'"
proof -
  from T have wf: "wf_trie h" by (simp add: trie_of_def)
  have wf': "wf_trie h'" by (rule same_trie_wf[OF st wf])
  have len: "length h' = length h" by (rule same_trie_length[OF st])
  have p: "path h' a = path h a" if "a < length h" for a
    by (rule same_trie_path[OF st that])
  have f: "isWord (h' ! a) = isWord (h ! a)" "pattern (h' ! a) = pattern (h ! a)"
    if "a < length h" for a
    using st that by (simp_all add: same_trie_def)
  have 1: "(0 < a \<longrightarrow> (\<exists>w \<in> W. prefix (path h' a) w)) \<and>
        (isWord (h' ! a) \<longleftrightarrow> path h' a \<in> W) \<and>
        (isWord (h' ! a) \<longrightarrow> pattern (h' ! a) = path h' a)" if "a < length h'" for a
  proof -
    from that len have a: "a < length h" by simp
    from T a have "(0 < a \<longrightarrow> (\<exists>w \<in> W. prefix (path h a) w)) \<and>
        (isWord (h ! a) \<longleftrightarrow> path h a \<in> W) \<and>
        (isWord (h ! a) \<longrightarrow> pattern (h ! a) = path h a)" unfolding trie_of_def by blast
    then show ?thesis unfolding p[OF a] f[OF a] .
  qed
  have 2: "\<exists>a < length h'. path h' a = w" if "w \<in> W" for w
  proof -
    from T that obtain a where "a < length h" "path h a = w" unfolding trie_of_def by blast
    then show ?thesis using len p[of a] by auto
  qed
  show ?thesis unfolding ac_inv_def all_linked_def using wf' lk 1 2 by blast
qed

lemma Aho_Corasick_spec:
  "\<exists>h. Aho_Corasick ord T ws = Some \<lparr>ac_text = T, ac_words = ws, ac_nodes = h\<rparr> \<and> ac_inv (set ws) h"
proof -
  from buildTrieTree_spec[of ord ws] obtain h1 where
    h1: "buildTrieTree ord ws [new_Node] = Some h1" "trie_of (set ws) h1" by blast
  from fillFailureLinks_spec[OF h1(2), of ord] obtain h2 where
    h2: "fillFailureLinks ord h1 = Some h2" "same_trie h1 h2" "\<forall>b < length h2. linked h2 b" by blast
  from fill_ac_inv[OF h1(2) h2(2,3)] h1(1) h2(1) show ?thesis
    by (simp add: Aho_Corasick_def)
qed

lemma Aho_Corasick_inv:
  "\<exists>ac. Aho_Corasick ord T ws = Some ac \<and> ac_text ac = T \<and> ac_inv (set ws) (ac_nodes ac)"
  using Aho_Corasick_spec[of ord T ws] by auto

lemma ac_inv_wf: "ac_inv W h \<Longrightarrow> wf_trie h"
  by (simp add: ac_inv_def all_linked_def)

lemma ac_inv_linked: "ac_inv W h \<Longrightarrow> all_linked h"
  by (simp add: ac_inv_def)

lemma ac_inv_is_word:
  assumes "ac_inv W h"
  shows "is_word h w \<longleftrightarrow> w \<in> W"
proof
  assume "is_word h w"
  then obtain a where a: "walk h root w = Some a" "isWord (h ! a)"
    by (auto simp: is_word_def split: option.splits)
  from walk_iff[OF ac_inv_wf[OF assms], of w a] a(1) have "a < length h" "path h a = w"
    by (simp_all add: root_def)
  with assms a(2) show "w \<in> W" unfolding ac_inv_def by blast
next
  assume "w \<in> W"
  with assms obtain a where a: "a < length h" "path h a = w" unfolding ac_inv_def by blast
  with assms \<open>w \<in> W\<close> have "isWord (h ! a)" unfolding ac_inv_def by blast
  then show "is_word h w" using is_word_path[OF ac_inv_wf[OF assms] a(1)] a(2) by simp
qed

lemma ac_inv_good:
  assumes "ac_inv W h" "[] \<notin> W"
  shows "good h"
proof -
  have "\<not> isWord (h ! root)"
    using ac_inv_is_word[OF assms(1), of "[]"] assms(2) by (simp add: is_word_Nil)
  moreover from assms(1) have "\<forall>b < length h. isWord (h ! b) \<longrightarrow> pattern (h ! b) = path h b"
    unfolding ac_inv_def by blast
  ultimately show ?thesis by (simp add: good_def)
qed



lemma findPatterns_total:
  assumes "ac_inv W (ac_nodes ac)"
  shows "\<exists>out. findPatterns ac = Some (ac, out)"
proof -
  let ?h = "ac_nodes ac"
  have al: "all_linked ?h" by (rule ac_inv_linked[OF assms])
  have r: "root < length ?h" by (rule all_linked_root(3)[OF al])
  from scan_loop_total[OF al r, of "ac_text ac" 0 "[]"] obtain n' out where
    "scan_loop (ac_text ac) 0 root ?h [] = Some (n', ?h, out)" by auto
  then have "findPatterns ac = Some (ac, out)" by (simp add: findPatterns_def)
  then show ?thesis by blast
qed

text \<open>
  What is printed: the matches in the first \<open>2^31\<close> characters of the text.  (A text of
  more than \<open>2^64 - 2^31\<close> characters is no \<^verbatim>\<open>std::string\<close>.)
\<close>

lemma findPatterns_list:
  assumes "ac_inv W (ac_nodes ac)" and L: "length (ac_text ac) \<le> 2 ^ 64 - 2 ^ 31"
  shows "\<exists>out. findPatterns ac = Some (ac, out) \<and>
      ([] \<notin> W \<longrightarrow> out = scan_reference (\<lambda>w. w \<in> W) (take (2 ^ 31) (ac_text ac)))"
proof -
  let ?h = "ac_nodes ac"
  let ?T = "take (2 ^ 31) (ac_text ac)"
  have al: "all_linked ?h" by (rule ac_inv_linked[OF assms(1)])
  have wf: "wf_trie ?h" by (rule ac_inv_wf[OF assms(1)])
  have r: "root < length ?h" by (rule all_linked_root(3)[OF al])
  have p0: "path ?h root = lsuf (present ?h) []" using path_root[OF wf] by (simp add: root_def)
  have tk: "take (min (length (ac_text ac)) (2 ^ 31)) (ac_text ac) = ?T"
    by (cases "length (ac_text ac) \<le> 2 ^ 31") (simp_all add: min_def)
  have "scan_loop (ac_text ac) (of_nat 0) root ?h [] =
      scan_chars 0 (drop 0 (take (min (length (ac_text ac)) (2 ^ 31)) (ac_text ac))) root ?h []"
    by (rule scan_loop_chars[OF L refl]) simp
  then have eq: "scan_loop (ac_text ac) 0 root ?h [] = scan_chars 0 ?T root ?h []"
    unfolding tk by simp
  from scan_chars_spec[OF al r p0, of ?T "[]"] obtain n' out where
    s: "scan_chars 0 ?T root ?h [] = Some (n', ?h, out)"
      "good ?h \<longrightarrow> out = scan_reference (is_word ?h) ?T"
    by (auto simp: scan_reference_def)
  have iw: "is_word ?h = (\<lambda>w. w \<in> W)" using ac_inv_is_word[OF assms(1)] by (intro ext) simp
  have "findPatterns ac = Some (ac, out)" using s(1) eq by (simp add: findPatterns_def)
  moreover have "out = scan_reference (\<lambda>w. w \<in> W) ?T" if "[] \<notin> W"
    using s(2) ac_inv_good[OF assms(1) that] iw by simp
  ultimately show ?thesis by blast
qed


subsection \<open>Equivalence with the naive search\<close>









subsection \<open>Empty and duplicate patterns\<close>

lemma dedup_seen_set: "set (dedup_seen seen ws) = set ws - set seen"
  by (induction ws arbitrary: seen) auto

lemma dedup_seen_distinct: "distinct (dedup_seen seen ws)"
  by (induction ws arbitrary: seen) (auto simp: dedup_seen_set)

lemma insert_all_dedup_seen:
  "trie_of (set seen) h \<Longrightarrow> insert_all ws h = insert_all (dedup_seen seen ws) h"
proof (induction ws arbitrary: seen h)
  case Nil
  then show ?case by simp
next
  case (Cons w ws)
  show ?case
  proof (cases "w \<in> set seen")
    case True
    from insert_trie_again[OF Cons.prems True] Cons.IH[OF Cons.prems] True
    show ?thesis by simp
  next
    case False
    from insert_trie_spec[OF Cons.prems, of w] obtain h1 where
      h1: "insert_trie w h = Some h1" "trie_of (insert w (set seen)) h1" by blast
    from h1(2) have "trie_of (set (seen @ [w])) h1" by simp
    from Cons.IH[OF this] h1(1) False show ?thesis by simp
  qed
qed

lemma insert_all_again:
  assumes "w \<in> set ws"
  shows "\<exists>h. insert_all ws [new_Node] = Some h \<and> insert_trie w h = Some h"
proof -
  from insert_all_spec[OF trie_of_init, of ws] obtain h where
    h: "insert_all ws [new_Node] = Some h" "trie_of (set ws) h" by auto
  from insert_trie_again[OF h(2) assms] h(1) show ?thesis by blast
qed

lemma Aho_Corasick_dedup:
  assumes "Aho_Corasick ord T ws = Some ac"
  shows "Aho_Corasick ord T (dedup ws) = Some (ac\<lparr>ac_words := dedup ws\<rparr>)"
proof -
  have "insert_all ws [new_Node] = insert_all (dedup ws) [new_Node]"
    unfolding dedup_def by (rule insert_all_dedup_seen) (simp add: trie_of_init)
  then have "buildTrieTree ord ws [new_Node] = buildTrieTree ord (dedup ws) [new_Node]"
    by (simp add: buildTrieTree_def)
  with assms show ?thesis
    by (auto simp: Aho_Corasick_def split: option.splits)
qed

lemma findPatterns_words:
  assumes "findPatterns ac = Some (ac, out)"
  shows "findPatterns (ac\<lparr>ac_words := ws\<rparr>) = Some (ac\<lparr>ac_words := ws\<rparr>, out)"
proof -
  from assms obtain n h where s: "scan_loop (ac_text ac) 0 root (ac_nodes ac) [] = Some (n, h, out)"
    and e: "ac\<lparr>ac_nodes := h\<rparr> = ac"
    by (auto simp: findPatterns_def split: option.splits)
  from e have "ac_nodes (ac\<lparr>ac_nodes := h\<rparr>) = ac_nodes ac" by simp
  then have "h = ac_nodes ac" by simp
  with s show ?thesis by (simp add: findPatterns_def)
qed

text \<open>
  Claim C2, as corrected.  The source has no error path at all: \<^verbatim>\<open>insert\<close> accepts the empty
  string, its loop body never runs, and the root itself is marked as a word with the empty
  pattern.  So for every pattern list, with or without an empty string, the constructor
  returns an automaton; when the list contains the empty string the root has
  \<^verbatim>\<open>isWord = true\<close> and \<^verbatim>\<open>pattern = ""\<close>.
\<close>

theorem build_never_fails:
  "\<exists>ac. Aho_Corasick ord T ws = Some ac \<and> ac_text ac = T \<and> ac_words ac = ws \<and>
     ([] \<in> set ws \<longrightarrow> isWord (ac_nodes ac ! root) \<and> pattern (ac_nodes ac ! root) = [])"
proof -
  from Aho_Corasick_spec[of ord T ws] obtain h where
    h: "Aho_Corasick ord T ws = Some \<lparr>ac_text = T, ac_words = ws, ac_nodes = h\<rparr>" "ac_inv (set ws) h"
    by blast
  have "isWord (h ! root) \<and> pattern (h ! root) = []" if "[] \<in> set ws"
  proof -
    have wf: "wf_trie h" by (rule ac_inv_wf[OF h(2)])
    have r: "root < length h" "path h root = []"
      using wf_trie_root[OF wf] path_root[OF wf] by (simp_all add: root_def)
    with h(2) that show ?thesis unfolding ac_inv_def by auto
  qed
  with h(1) show ?thesis by auto
qed

theorem build_never_fails_witness:
  "\<exists>ac. Aho_Corasick id ''she'' [''he'', []] = Some ac \<and>
     isWord (ac_nodes ac ! root) \<and> pattern (ac_nodes ac ! root) = []"
  using build_never_fails [where ord = id and T = "''she''" and ws = "[''he'', []]"] by auto

text \<open>
  Claim C2 as stated fails: building from the list \<open>["he", ""]\<close> does not fail, it returns
  this automaton of three nodes, whose root is marked as a word.
\<close>

theorem build_empty_pattern_counterexample:
  "Aho_Corasick id [] [''he'', []] =
     Some \<lparr>ac_text = [], ac_words = [''he'', []],
       ac_nodes =
         [\<lparr>children = [(CHR ''h'', Some 1)], parent = None, failureLink = None,
             outputLink = None, isWord = True, parentChar = CHR ''*'', node_id = 0, pattern = []\<rparr>,
          \<lparr>children = [(CHR ''e'', Some 2)], parent = Some 0, failureLink = Some 0,
             outputLink = None, isWord = False, parentChar = CHR ''h'', node_id = 1, pattern = []\<rparr>,
          \<lparr>children = [], parent = Some 1, failureLink = Some 0,
             outputLink = None, isWord = True, parentChar = CHR ''e'', node_id = 2,
             pattern = ''he''\<rparr>]\<rparr>"
  by code_simp

text \<open>
  Claim C7.  Inserting a pattern that the trie already holds changes nothing: the memory
  after the insertion is the memory before it, node for node and field for field.  Hence the
  automaton built from a pattern list and the one built from its deduplicated list have the
  same nodes, and scanning any text prints the same sequence of matches with both.
\<close>

theorem duplicate_patterns_idempotent:
  "(\<forall>w \<in> set ws. \<exists>h. insert_all ws [new_Node] = Some h \<and> insert_trie w h = Some h) \<and>
   distinct (dedup ws) \<and> set (dedup ws) = set ws \<and>
   (\<exists>ac ac' out. Aho_Corasick ord T ws = Some ac \<and> Aho_Corasick ord T (dedup ws) = Some ac' \<and>
      ac_nodes ac' = ac_nodes ac \<and>
      findPatterns ac = Some (ac, out) \<and> findPatterns ac' = Some (ac', out))"
proof (intro conjI ballI)
  fix w assume "w \<in> set ws"
  then show "\<exists>h. insert_all ws [new_Node] = Some h \<and> insert_trie w h = Some h"
    by (rule insert_all_again)
next
  show "distinct (dedup ws)" by (simp add: dedup_def dedup_seen_distinct)
  show "set (dedup ws) = set ws" by (simp add: dedup_def dedup_seen_set)
next
  from Aho_Corasick_spec[of ord T ws] obtain h where
    h: "Aho_Corasick ord T ws = Some \<lparr>ac_text = T, ac_words = ws, ac_nodes = h\<rparr>" "ac_inv (set ws) h"
    by blast
  let ?ac = "\<lparr>ac_text = T, ac_words = ws, ac_nodes = h\<rparr>"
  from findPatterns_total[of "set ws" ?ac] h(2) obtain out where
    o: "findPatterns ?ac = Some (?ac, out)" by auto
  have d: "Aho_Corasick ord T (dedup ws) = Some (?ac\<lparr>ac_words := dedup ws\<rparr>)"
    by (rule Aho_Corasick_dedup[OF h(1)])
  have "findPatterns (?ac\<lparr>ac_words := dedup ws\<rparr>) = Some (?ac\<lparr>ac_words := dedup ws\<rparr>, out)"
    by (rule findPatterns_words[OF o])
  with h(1) o d show "\<exists>ac ac' out. Aho_Corasick ord T ws = Some ac \<and>
      Aho_Corasick ord T (dedup ws) = Some ac' \<and> ac_nodes ac' = ac_nodes ac \<and>
      findPatterns ac = Some (ac, out) \<and> findPatterns ac' = Some (ac', out)"
    by (intro exI[of _ ?ac] exI[of _ "?ac\<lparr>ac_words := dedup ws\<rparr>"] exI[of _ out]) simp
qed

theorem duplicate_patterns_idempotent_witness:
  "\<exists>ac ac' out. Aho_Corasick id ''ushers'' [''he'', ''he'', ''she''] = Some ac \<and>
      Aho_Corasick id ''ushers'' [''he'', ''she''] = Some ac' \<and>
      ac_nodes ac' = ac_nodes ac \<and>
      findPatterns ac = Some (ac, out) \<and> findPatterns ac' = Some (ac', out)"
proof -
  have "dedup [''he'', ''he'', ''she''] = [''he'', ''she'']" by (simp add: dedup_def)
  with duplicate_patterns_idempotent [where ord = id and ws = "[''he'', ''he'', ''she'']" and T = "''ushers''"]
  show ?thesis by simp
qed

subsection \<open>Depth and the reference recurrence\<close>

lemma depth_path:
  assumes wf: "wf_trie h"
  shows "a < length h \<Longrightarrow> depth h a = Some (length (path h a))"
proof (induction a rule: less_induct)
  case (less a)
  show ?case
  proof (cases "a = 0")
    case True
    then show ?thesis
      using wf_trie_root[OF wf] path_root[OF wf] by (subst depth.simps) simp
  next
    case False
    then have "0 < a" by simp
    from path_nonroot[OF wf less.prems this] obtain p where p: "parent (h ! a) = Some p"
      "p < a" "p < length h" "path h a = path h p @ [parentChar (h ! a)]" by blast
    from less.IH[OF p(2,3)] p(1,4) less.prems show ?thesis
      by (subst depth.simps) simp
  qed
qed

lemma ref_cursor_spec:
  assumes al: "all_linked h"
  shows "n < length h \<Longrightarrow>
    \<exists>n1. ref_cursor h n c = Some n1 \<and> n1 < length h \<and>
      path h n1 = (case lsufc (present h) c (path h n) of Some y \<Rightarrow> y | None \<Rightarrow> []) \<and>
      (contains (children (h ! n1)) c \<longleftrightarrow> lsufc (present h) c (path h n) \<noteq> None)"
proof (induction "length (path h n)" arbitrary: n rule: less_induct)
  case less
  from al have wf: "wf_trie h" by (simp add: all_linked_def)
  note n = less.prems
  show ?case
  proof (cases "contains (children (h ! n)) c")
    case True
    have "present h (path h n @ [c])" using present_snoc[OF wf n] True by simp
    then have ls: "lsufc (present h) c (path h n) = Some (path h n)"
      using lsufc_unfold[of "present h" c "path h n"] by simp
    have "ref_cursor h n c = Some n"
      by (subst ref_cursor.simps) (use n True in simp)
    then show ?thesis using ls n True by simp
  next
    case False
    have nP: "\<not> present h (path h n @ [c])" using present_snoc[OF wf n] False by simp
    show ?thesis
    proof (cases "n = root")
      case True
      have "ref_cursor h n c = Some n"
        by (subst ref_cursor.simps) (use n True in simp)
      moreover have "lsufc (present h) c (path h n) = None"
        using nP True path_root[OF wf] by (simp add: root_def)
      moreover have "path h n = []" using True path_root[OF wf] by (simp add: root_def)
      ultimately show ?thesis using n False by simp
    next
      case nr: False
      from all_linked_fail[OF al n nr] obtain f where f: "failureLink (h ! n) = Some f"
        "f < length h" "path h f = lsuf (present h) (tl (path h n))"
        "length (path h f) < length (path h n)" by blast
      have step: "ref_cursor h n c = ref_cursor h f c"
        by (subst ref_cursor.simps) (use n False nr f(1) in simp)
      have ne: "path h n \<noteq> []" using f(4) by auto
      have eq: "lsufc (present h) c (path h n) = lsufc (present h) c (path h f)"
        unfolding f(3) by (rule lsufc_fail[OF present_closed ne nP])
      from less.hyps[OF f(4) f(2)] show ?thesis unfolding step eq .
    qed
  qed
qed

lemma nonroot_parent:
  assumes wf: "wf_trie h" and n: "n < length h" "n \<noteq> root"
  obtains p where "parent (h ! n) = Some p" "p < length h"
    "path h n = path h p @ [parentChar (h ! n)]"
proof -
  from n(2) have "0 < n" by (simp add: root_def)
  from path_nonroot[OF wf n(1) this] that show thesis by blast
qed

lemma ref_failureLink_spec:
  assumes al: "all_linked h" and n: "n < length h" and p: "parent (h ! n) = Some p" "p \<noteq> root"
  shows "ref_failureLink h n = Some (failureLink (h ! n))"
proof -
  from al have wf: "wf_trie h" by (simp add: all_linked_def)
  have nr: "n \<noteq> root"
  proof
    assume "n = root"
    then have "parent (h ! n) = None" using wf_trie_root[OF wf] by (simp add: root_def)
    with p(1) show False by simp
  qed
  from nonroot_parent[OF wf n nr] p(1) have pl: "p < length h"
    and pn: "path h n = path h p @ [parentChar (h ! n)]" by auto
  define c where "c = parentChar (h ! n)"
  from all_linked_fail[OF al pl p(2)] obtain f where f: "failureLink (h ! p) = Some f"
    "f < length h" "path h f = lsuf (present h) (tl (path h p))" by blast
  from ref_cursor_spec[OF al f(2), of c] obtain cur where cur: "ref_cursor h f c = Some cur"
    "cur < length h"
    "path h cur = (case lsufc (present h) c (path h f) of Some y \<Rightarrow> y | None \<Rightarrow> [])"
    "contains (children (h ! cur)) c \<longleftrightarrow> lsufc (present h) c (path h f) \<noteq> None" by blast
  have pne: "path h p \<noteq> []" using path_eq_Nil[OF wf pl] p(2) by (simp add: root_def)
  have tl_n: "tl (path h n) = tl (path h p) @ [c]" using pn pne by (simp add: c_def)
  have lsc: "lsufc (present h) c (tl (path h p)) = lsufc (present h) c (path h f)"
    unfolding f(3) by (rule lsufc_lsuf[OF present_closed, symmetric])
  have fa: "lsuf (present h) (tl (path h n)) =
      (case lsufc (present h) c (path h f) of Some y \<Rightarrow> y @ [c] | None \<Rightarrow> [])"
    unfolding tl_n lsuf_snoc lsc ..
  from al n have "linked h n" by (simp add: all_linked_def)
  then have fl: "failureLink (h ! n) = walk h root (lsuf (present h) (tl (path h n)))"
    using nr by (simp add: linked_def fail_of_def)
  have res: "ref_failureLink h n =
      Some (case map_of (children (h ! cur)) c of Some child \<Rightarrow> child | None \<Rightarrow> Some root)"
    using p(1) f(1,2) cur(1) by (simp add: ref_failureLink_def deref_def c_def)
  show ?thesis
  proof (cases "lsufc (present h) c (path h f)")
    case None
    with cur(4) have "map_of (children (h ! cur)) c = None" by (simp add: contains_iff)
    moreover have "failureLink (h ! n) = Some root" using fl fa None by simp
    ultimately show ?thesis using res by simp
  next
    case (Some y)
    with cur(3,4) have pc: "path h cur = y" and ct: "contains (children (h ! cur)) c" by auto
    from wf_child_Some[OF wf cur(2) ct] obtain t where t:
      "map_of (children (h ! cur)) c = Some (Some t)" "t < length h" "path h t = path h cur @ [c]"
      by blast
    have "walk h root (y @ [c]) = Some t" using child_walk[OF wf cur(2) t(1)] pc by simp
    then have "failureLink (h ! n) = Some t" using fl fa Some by simp
    then show ?thesis using res t(1) by simp
  qed
qed

subsection \<open>Failure and output links of the automaton\<close>

text \<open>
  Claim C3.  In the automaton the constructor returns, every node other than the root has a
  parent; a direct child of the root has the root as its failure link, and the failure
  link of every other node is what the reference recurrence of the specification computes
  on the finished automaton (cursor started at the failure link of the parent, advanced
  while it is not the root and has no child for the edge symbol).
\<close>

theorem failure_links_follow_reference:
  "\<exists>ac. Aho_Corasick ord T ws = Some ac \<and>
     (\<forall>n < length (ac_nodes ac). n \<noteq> root \<longrightarrow>
        (\<exists>p. parent (ac_nodes ac ! n) = Some p \<and> p < length (ac_nodes ac) \<and>
           (if p = root then failureLink (ac_nodes ac ! n) = Some root
            else ref_failureLink (ac_nodes ac) n = Some (failureLink (ac_nodes ac ! n)))))"
proof -
  from Aho_Corasick_inv[of ord T ws] obtain ac where
    ac: "Aho_Corasick ord T ws = Some ac" and inv: "ac_inv (set ws) (ac_nodes ac)" by blast
  define h where "h = ac_nodes ac"
  note h = ac inv[folded h_def]
  have al: "all_linked h" by (rule ac_inv_linked[OF h(2)])
  have wf: "wf_trie h" by (rule ac_inv_wf[OF h(2)])
  have "\<exists>p. parent (h ! n) = Some p \<and> p < length h \<and>
           (if p = root then failureLink (h ! n) = Some root
            else ref_failureLink h n = Some (failureLink (h ! n)))"
    if n: "n < length h" "n \<noteq> root" for n
  proof -
    from nonroot_parent[OF wf n] obtain p where p: "parent (h ! n) = Some p" "p < length h"
      "path h n = path h p @ [parentChar (h ! n)]" by blast
    show ?thesis
    proof (cases "p = root")
      case True
      then have "tl (path h n) = []" using p(3) path_root[OF wf] by (simp add: root_def)
      moreover from al n have "failureLink (h ! n) = fail_of h n"
        by (simp add: all_linked_def linked_def)
      ultimately have "failureLink (h ! n) = Some root" by (simp add: fail_of_def)
      with p True show ?thesis by simp
    next
      case False
      from ref_failureLink_spec[OF al n(1) p(1) False] p False show ?thesis by simp
    qed
  qed
  then show ?thesis using ac unfolding h_def by blast
qed

theorem failure_links_follow_reference_witness:
  "\<exists>ac. Aho_Corasick id [] [''ab'', ''b''] = Some ac \<and>
     ref_failureLink (ac_nodes ac) 2 = Some (failureLink (ac_nodes ac ! 2)) \<and>
     failureLink (ac_nodes ac ! 2) = Some 3"
proof -
  from failure_links_follow_reference [where ord = id and T = "[]" and ws = "[''ab'', ''b'']"] obtain ac where
    ac: "Aho_Corasick id [] [''ab'', ''b''] = Some ac"
    and r: "\<forall>n < length (ac_nodes ac). n \<noteq> root \<longrightarrow>
        (\<exists>p. parent (ac_nodes ac ! n) = Some p \<and> p < length (ac_nodes ac) \<and>
           (if p = root then failureLink (ac_nodes ac ! n) = Some root
            else ref_failureLink (ac_nodes ac) n = Some (failureLink (ac_nodes ac ! n))))"
    by blast
  have v: "length (ac_nodes (the (Aho_Corasick id [] [''ab'', ''b'']))) = 4"
    "parent (ac_nodes (the (Aho_Corasick id [] [''ab'', ''b''])) ! 2) = Some 1"
    "failureLink (ac_nodes (the (Aho_Corasick id [] [''ab'', ''b''])) ! 2) = Some 3"
    by code_simp+
  from v ac have l: "2 < length (ac_nodes ac)" "parent (ac_nodes ac ! 2) = Some 1"
    "failureLink (ac_nodes ac ! 2) = Some 3" by simp_all
  from r[rule_format, OF l(1)] l(2) have
    "ref_failureLink (ac_nodes ac) 2 = Some (failureLink (ac_nodes ac ! 2))"
    by (simp add: root_def)
  with ac l(3) show ?thesis by blast
qed

text \<open>
  Claim C4, as corrected.  For an automaton built from patterns none of which is empty,
  every node other than the root has a failure link, and its output link is the failure
  link itself when that node is a word, and the output link of that node otherwise.
\<close>

theorem output_links_follow_failure:
  assumes "\<forall>w \<in> set ws. w \<noteq> []"
  shows "\<exists>ac. Aho_Corasick ord T ws = Some ac \<and>
     (\<forall>n < length (ac_nodes ac). n \<noteq> root \<longrightarrow>
        (\<exists>t. failureLink (ac_nodes ac ! n) = Some t \<and> t < length (ac_nodes ac) \<and>
           outputLink (ac_nodes ac ! n) =
             (if isWord (ac_nodes ac ! t) then Some t else outputLink (ac_nodes ac ! t))))"
proof -
  from Aho_Corasick_inv[of ord T ws] obtain ac where
    ac: "Aho_Corasick ord T ws = Some ac" and inv: "ac_inv (set ws) (ac_nodes ac)" by blast
  define h where "h = ac_nodes ac"
  note h = ac inv[folded h_def]
  have al: "all_linked h" by (rule ac_inv_linked[OF h(2)])
  have wf: "wf_trie h" by (rule ac_inv_wf[OF h(2)])
  have "[] \<notin> set ws" using assms by auto
  from ac_inv_good[OF h(2) this] have nw: "\<not> isWord (h ! root)" by (simp add: good_def)
  have "\<exists>t. failureLink (h ! n) = Some t \<and> t < length h \<and>
           outputLink (h ! n) = (if isWord (h ! t) then Some t else outputLink (h ! t))"
    if n: "n < length h" "n \<noteq> root" for n
  proof -
    from all_linked_fail[OF al n] obtain t where t: "failureLink (h ! n) = Some t" "t < length h"
      "path h t = lsuf (present h) (tl (path h n))" by blast
    from al n(1) have "linked h n" by (simp add: all_linked_def)
    from linked_out_props(2)[OF this n(2) nw] have o: "outputLink (h ! n) = out_of h n" .
    have "out_of h n = (if isWord (h ! t) then Some t else outputLink (h ! t))"
    proof (cases "t = root")
      case True
      then have "lsuf (present h) (tl (path h n)) = []"
        using t(3) path_root[OF wf] by (simp add: root_def)
      from out_of_fail_root[OF this nw] True nw all_linked_root(2)[OF al] show ?thesis by simp
    next
      case False
      then have t0: "t \<noteq> 0" by (simp add: root_def)
      from al t(2) have "linked h t" by (simp add: all_linked_def)
      from linked_out_props(2)[OF this False nw] out_of_fail_node[OF wf t(2) t0 t(3)]
      show ?thesis by simp
    qed
    with o t show ?thesis by simp
  qed
  then show ?thesis using ac unfolding h_def by blast
qed

theorem output_links_follow_failure_witness:
  "\<exists>ac. Aho_Corasick id [] [''he'', ''she''] = Some ac \<and>
     failureLink (ac_nodes ac ! 5) = Some 2 \<and> isWord (ac_nodes ac ! 2) \<and>
     outputLink (ac_nodes ac ! 5) = Some 2"
proof -
  have ne: "\<forall>w \<in> set [''he'', ''she'']. w \<noteq> []" by simp
  from output_links_follow_failure [OF ne, where ord = id and T = "[]"] obtain ac where
    ac: "Aho_Corasick id [] [''he'', ''she''] = Some ac"
    and r: "\<forall>n < length (ac_nodes ac). n \<noteq> root \<longrightarrow>
        (\<exists>t. failureLink (ac_nodes ac ! n) = Some t \<and> t < length (ac_nodes ac) \<and>
           outputLink (ac_nodes ac ! n) =
             (if isWord (ac_nodes ac ! t) then Some t else outputLink (ac_nodes ac ! t)))"
    by blast
  have v: "length (ac_nodes (the (Aho_Corasick id [] [''he'', ''she'']))) = 6"
    "failureLink (ac_nodes (the (Aho_Corasick id [] [''he'', ''she''])) ! 5) = Some 2"
    "isWord (ac_nodes (the (Aho_Corasick id [] [''he'', ''she''])) ! 2)"
    by code_simp+
  from v ac have l: "5 < length (ac_nodes ac)" "failureLink (ac_nodes ac ! 5) = Some 2"
    "isWord (ac_nodes ac ! 2)" by simp_all
  from r[rule_format, OF l(1)] l(2,3) have "outputLink (ac_nodes ac ! 5) = Some 2"
    by (simp add: root_def)
  with ac l show ?thesis by blast
qed

text \<open>
  Claim C4 as stated fails when the pattern list holds the empty string, which the
  constructor accepts: built from \<open>["", "a"]\<close>, the node of \<open>"a"\<close> (address 1) has the root
  (address 0) as its failure link, the root is a word, and yet the output link of the node
  is null.
\<close>

theorem output_link_counterexample:
  "Aho_Corasick id [] [[], ''a''] \<noteq> None \<and>
   failureLink (ac_nodes (the (Aho_Corasick id [] [[], ''a''])) ! 1) = Some 0 \<and>
   isWord (ac_nodes (the (Aho_Corasick id [] [[], ''a''])) ! 0) \<and>
   outputLink (ac_nodes (the (Aho_Corasick id [] [[], ''a''])) ! 1) = None"
  by code_simp

text \<open>
  Claim C5, as corrected.  In the automaton the constructor returns, the failure link of
  every node other than the root points to a node of strictly smaller depth; the failure
  link of the root is null (the code uses the null pointer, not a self-loop, as the
  sentinel).
\<close>

theorem failure_link_decreases_depth:
  "\<exists>ac. Aho_Corasick ord T ws = Some ac \<and>
     failureLink (ac_nodes ac ! root) = None \<and>
     (\<forall>n < length (ac_nodes ac). n \<noteq> root \<longrightarrow>
        (\<exists>f d d'. failureLink (ac_nodes ac ! n) = Some f \<and>
           depth (ac_nodes ac) n = Some d \<and> depth (ac_nodes ac) f = Some d' \<and> d' < d))"
proof -
  from Aho_Corasick_inv[of ord T ws] obtain ac where
    ac: "Aho_Corasick ord T ws = Some ac" and inv: "ac_inv (set ws) (ac_nodes ac)" by blast
  define h where "h = ac_nodes ac"
  note h = ac inv[folded h_def]
  have al: "all_linked h" by (rule ac_inv_linked[OF h(2)])
  have wf: "wf_trie h" by (rule ac_inv_wf[OF h(2)])
  have "\<exists>f d d'. failureLink (h ! n) = Some f \<and> depth h n = Some d \<and> depth h f = Some d' \<and> d' < d"
    if n: "n < length h" "n \<noteq> root" for n
  proof -
    from all_linked_fail[OF al n] obtain f where f: "failureLink (h ! n) = Some f" "f < length h"
      "length (path h f) < length (path h n)" by blast
    with depth_path[OF wf n(1)] depth_path[OF wf f(2)] show ?thesis by simp
  qed
  then show ?thesis using ac all_linked_root(1)[OF al] unfolding h_def by blast
qed

theorem failure_link_decreases_depth_witness:
  "\<exists>ac. Aho_Corasick id [] [''ab'', ''b''] = Some ac \<and>
     failureLink (ac_nodes ac ! 2) = Some 3 \<and>
     depth (ac_nodes ac) 2 = Some 2 \<and> depth (ac_nodes ac) 3 = Some 1"
proof -
  from failure_link_decreases_depth [where ord = id and T = "[]" and ws = "[''ab'', ''b'']"] obtain ac where
    ac: "Aho_Corasick id [] [''ab'', ''b''] = Some ac"
    and r: "\<forall>n < length (ac_nodes ac). n \<noteq> root \<longrightarrow>
        (\<exists>f d d'. failureLink (ac_nodes ac ! n) = Some f \<and>
           depth (ac_nodes ac) n = Some d \<and> depth (ac_nodes ac) f = Some d' \<and> d' < d)"
    by blast
  have v: "length (ac_nodes (the (Aho_Corasick id [] [''ab'', ''b'']))) = 4"
    "failureLink (ac_nodes (the (Aho_Corasick id [] [''ab'', ''b''])) ! 2) = Some 3"
    "depth (ac_nodes (the (Aho_Corasick id [] [''ab'', ''b'']))) 2 = Some 2"
    "depth (ac_nodes (the (Aho_Corasick id [] [''ab'', ''b'']))) 3 = Some 1"
    by code_simp+
  from v ac have l: "2 < length (ac_nodes ac)" "failureLink (ac_nodes ac ! 2) = Some 3"
    "depth (ac_nodes ac) 2 = Some 2" "depth (ac_nodes ac) 3 = Some 1" by simp_all
  from r[rule_format, OF l(1)] obtain f d d' where
    "failureLink (ac_nodes ac ! 2) = Some f" "depth (ac_nodes ac) 2 = Some d"
    "depth (ac_nodes ac) f = Some d'" "d' < d" by (auto simp: root_def)
  with l have "f = 3" "d = 2" "d' = 1" "d' < d" by simp_all
  with ac l show ?thesis by blast
qed

text \<open>
  Claim C5 as stated fails at the root: the failure link of the root is not the root
  itself, it stays null, already for the pattern list \<open>["a"]\<close>.
\<close>

theorem root_failure_link_counterexample:
  "Aho_Corasick id [] [''a''] \<noteq> None \<and>
   failureLink (ac_nodes (the (Aho_Corasick id [] [''a''])) ! root) = None \<and>
   failureLink (ac_nodes (the (Aho_Corasick id [] [''a''])) ! root) \<noteq> Some root"
  by code_simp

subsection \<open>Bounded walks along failure links\<close>

lemma fail_loop_bounded_sound:
  "fail_loop_bounded k n c h = Some r \<Longrightarrow> fail_loop n c h = Some r"
proof (induction k arbitrary: n)
  case 0
  then show ?case
    by (subst fail_loop.simps) (auto simp: fail_loop_bounded.simps[of 0] split: if_splits)
next
  case (Suc k)
  show ?case
  proof (cases "n < length h \<and> failureLink (h ! n) \<noteq> None \<and> \<not> contains (children (h ! n)) c")
    case True
    then obtain f where f: "failureLink (h ! n) = Some f" by auto
    with True Suc.prems have "fail_loop_bounded k f c h = Some r"
      by (simp add: fail_loop_bounded.simps[of "Suc k"])
    from Suc.IH[OF this] True f show ?thesis by (subst fail_loop.simps) simp
  next
    case False
    with Suc.prems show ?thesis
      by (subst fail_loop.simps) (auto simp: fail_loop_bounded.simps[of "Suc k"] split: if_splits)
  qed
qed

lemma fail_loop_bounded_total:
  assumes al: "all_linked h"
  shows "n < length h \<Longrightarrow> length (path h n) \<le> k \<Longrightarrow> \<exists>r. fail_loop_bounded k n c h = Some r"
proof (induction k arbitrary: n)
  case 0
  from al have wf: "wf_trie h" by (simp add: all_linked_def)
  from 0 have "n = root" using path_eq_Nil[OF wf 0(1)] by (simp add: root_def)
  then show ?case using 0(1) all_linked_root(1)[OF al]
    by (simp add: fail_loop_bounded.simps[of 0])
next
  case (Suc k)
  show ?case
  proof (cases "failureLink (h ! n) \<noteq> None \<and> \<not> contains (children (h ! n)) c")
    case True
    then have nr: "n \<noteq> root" using all_linked_root(1)[OF al] by auto
    from all_linked_fail[OF al Suc.prems(1) nr] obtain f where f: "failureLink (h ! n) = Some f"
      "f < length h" "length (path h f) < length (path h n)" by blast
    then have "length (path h f) \<le> k" using Suc.prems(2) by simp
    from Suc.IH[OF f(2) this] True f(1) Suc.prems(1) show ?thesis
      by (simp add: fail_loop_bounded.simps[of "Suc k"])
  next
    case False
    then show ?thesis using Suc.prems(1) by (auto simp: fail_loop_bounded.simps[of "Suc k"])
  qed
qed

lemma connect_loop_bounded_sound:
  "connect_loop_bounded k n fl h = Some h' \<Longrightarrow> connect_loop n fl h = Some h'"
proof (induction k arbitrary: fl)
  case 0
  then show ?case
    by (subst connect_loop.simps)
       (auto simp: connect_loop_bounded.simps[of 0] split: option.splits)
next
  case (Suc k)
  show ?case
  proof (cases fl)
    case None
    with Suc.prems show ?thesis
      by (subst connect_loop.simps) (simp add: connect_loop_bounded.simps[of "Suc k"])
  next
    case (Some f)
    show ?thesis
    proof (cases "f < length h \<and> n < length h \<and> \<not> contains (children (h ! f)) (parentChar (h ! n))")
      case True
      with Some Suc.prems have "connect_loop_bounded k n (failureLink (h ! f)) h = Some h'"
        by (simp add: connect_loop_bounded.simps[of "Suc k"])
      from Suc.IH[OF this] True Some show ?thesis by (subst connect_loop.simps) simp
    next
      case False
      with Some Suc.prems show ?thesis
        by (subst connect_loop.simps)
           (auto simp: connect_loop_bounded.simps[of "Suc k"] split: if_splits)
    qed
  qed
qed

lemma connect_loop_bounded_total:
  assumes al: "all_linked h" and n: "n < length h"
  shows "f < length h \<Longrightarrow> length (path h f) < k \<Longrightarrow>
    \<exists>h'. connect_loop_bounded k n (Some f) h = Some h'"
proof (induction k arbitrary: f)
  case 0
  then show ?case by simp
next
  case (Suc k)
  from al have wf: "wf_trie h" by (simp add: all_linked_def)
  define c where "c = parentChar (h ! n)"
  show ?case
  proof (cases "contains (children (h ! f)) c")
    case True
    from wf_child_Some[OF wf Suc.prems(1) True] obtain t where
      t: "map_of (children (h ! f)) c = Some (Some t)" "t < length h" by blast
    show ?thesis
      using True t n Suc.prems(1)
      by (simp add: connect_loop_bounded.simps[of "Suc k"] c_def[symmetric]
          child_ref_present deref_def Let_def)
  next
    case False
    have step: "connect_loop_bounded (Suc k) n (Some f) h =
        connect_loop_bounded k n (failureLink (h ! f)) h"
      using False n Suc.prems(1) by (simp add: connect_loop_bounded.simps[of "Suc k"] c_def)
    show ?thesis
    proof (cases "f = root")
      case True
      then show ?thesis
        unfolding step using all_linked_root(1)[OF al] by (simp add: connect_loop_bounded.simps[of k])
    next
      case nr: False
      from all_linked_fail[OF al Suc.prems(1) nr] obtain f' where f': "failureLink (h ! f) = Some f'"
        "f' < length h" "length (path h f') < length (path h f)" by blast
      then have "length (path h f') < k" using Suc.prems(2) by simp
      from Suc.IH[OF f'(2) this] show ?thesis unfolding step f'(1) .
    qed
  qed
qed

subsection \<open>Scanning\<close>



text \<open>
  Claim C6.  Built from the patterns he, she, his, hers, whatever the order in which the
  children of a node are enumerated, the automaton scanning the text ahishers prints his
  (ending at 3), she and then he (ending at 5), hers (ending at 7), and nothing else: as
  (pattern, start, end) triples with inclusive 0-based indices, the match set is exactly
  (his,1,3), (she,3,5), (he,4,5), (hers,4,7).
\<close>

theorem overlap_scenario:
  "\<exists>ac ac' out. Aho_Corasick ord ''ahishers'' [''he'', ''she'', ''his'', ''hers''] = Some ac \<and>
     findPatterns ac = Some (ac', out) \<and>
     out = [(''his'', 3), (''she'', 5), (''he'', 5), (''hers'', 7)] \<and>
     match_of ` set out = {(''his'', 1, 3), (''she'', 3, 5), (''he'', 4, 5), (''hers'', 4, 7)}"
proof -
  let ?ws = "[''he'', ''she'', ''his'', ''hers'']"
  from Aho_Corasick_spec[where ord = ord and T = "''ahishers''" and ws = ?ws] obtain h where
    h: "Aho_Corasick ord ''ahishers'' ?ws =
          Some \<lparr>ac_text = ''ahishers'', ac_words = ?ws, ac_nodes = h\<rparr>"
      "ac_inv (set ?ws) h" by blast
  let ?ac = "\<lparr>ac_text = ''ahishers'', ac_words = ?ws, ac_nodes = h\<rparr>"
  have ne: "[] \<notin> set ?ws" by simp
  have L: "length (ac_text ?ac) \<le> 2 ^ 64 - 2 ^ 31" by simp
  from findPatterns_list[of "set ?ws" ?ac, OF _ L] h(2) ne obtain out where
    o: "findPatterns ?ac = Some (?ac, out)"
      "out = scan_reference (\<lambda>w. w \<in> set ?ws) ''ahishers''" by auto
  have e: "scan_reference (\<lambda>w. w \<in> set ?ws) ''ahishers'' =
      [(''his'', 3), (''she'', 5), (''he'', 5), (''hers'', 7)]"
    by code_simp
  have "match_of ` set [(''his'', 3), (''she'', 5), (''he'', 5), (''hers'', 7)] =
      {(''his'', 1, 3), (''she'', 3, 5), (''he'', 4, 5), (''hers'', 4, 7)}"
    by (simp add: match_of_def start_index_def)
  with h(1) o e show ?thesis by auto
qed



text \<open>
  Claim C9.  Scanning does not change the automaton: \<^verbatim>\<open>findPatterns\<close> returns, and the
  object it leaves is the object it started from, field for field (text, words and every
  node with all its fields).  So the scan can be repeated and prints the same sequence again;
  the same holds when the same nodes are scanned against any other text.
\<close>

theorem scan_preserves_automaton:
  "\<exists>ac out. Aho_Corasick ord T ws = Some ac \<and> findPatterns ac = Some (ac, out) \<and>
     Option.bind (findPatterns ac) (\<lambda>r. findPatterns (fst r)) = Some (ac, out) \<and>
     (\<forall>T'. \<exists>out'. findPatterns (ac\<lparr>ac_text := T'\<rparr>) = Some (ac\<lparr>ac_text := T'\<rparr>, out'))"
proof -
  from Aho_Corasick_inv[of ord T ws] obtain ac where
    ac: "Aho_Corasick ord T ws = Some ac" and inv: "ac_inv (set ws) (ac_nodes ac)" by blast
  from findPatterns_total[OF inv] obtain out where o: "findPatterns ac = Some (ac, out)" by blast
  have "\<exists>out'. findPatterns (ac\<lparr>ac_text := T'\<rparr>) = Some (ac\<lparr>ac_text := T'\<rparr>, out')" for T'
    using findPatterns_total[of "set ws" "ac\<lparr>ac_text := T'\<rparr>"] inv by auto
  with ac o show ?thesis by auto
qed

text \<open>
  Claim C10.  In the automaton the constructor returns, the failure link and the output
  link of the root are null; every node has a depth, and the failure link of every node
  other than the root points to a node of strictly smaller depth, so the chain of failure
  links ends at the null link of the root.  Consequently both walks along failure links end
  after at most as many steps as the node is deep: the mismatch loop of the scanner started
  at a node, and the loop of \<^verbatim>\<open>connectFailureLink\<close> for a node (started, as the code does, at
  the failure link of its parent), each run with the depth of the node as the bound on the
  number of iterations, return, and return what the unbounded loop returns.
\<close>

theorem failure_chain_terminates:
  "\<exists>ac. Aho_Corasick ord T ws = Some ac \<and>
     failureLink (ac_nodes ac ! root) = None \<and> outputLink (ac_nodes ac ! root) = None \<and>
     (\<forall>n < length (ac_nodes ac). \<exists>d. depth (ac_nodes ac) n = Some d \<and>
        (n \<noteq> root \<longrightarrow>
           (\<exists>f d'. failureLink (ac_nodes ac ! n) = Some f \<and> depth (ac_nodes ac) f = Some d' \<and> d' < d)) \<and>
        (\<forall>c. \<exists>r. fail_loop_bounded d n c (ac_nodes ac) = Some r \<and>
                  fail_loop n c (ac_nodes ac) = Some r) \<and>
        (\<forall>p. parent (ac_nodes ac ! n) = Some p \<longrightarrow> p \<noteq> root \<longrightarrow>
           (\<exists>h'. connect_loop_bounded d n (failureLink (ac_nodes ac ! p)) (ac_nodes ac) = Some h' \<and>
                 connect_loop n (failureLink (ac_nodes ac ! p)) (ac_nodes ac) = Some h')))"
proof -
  from Aho_Corasick_inv[of ord T ws] obtain ac where
    ac: "Aho_Corasick ord T ws = Some ac" and inv: "ac_inv (set ws) (ac_nodes ac)" by blast
  define h where "h = ac_nodes ac"
  have al: "all_linked h" unfolding h_def by (rule ac_inv_linked[OF inv])
  have wf: "wf_trie h" unfolding h_def by (rule ac_inv_wf[OF inv])
  have "\<exists>d. depth h n = Some d \<and>
        (n \<noteq> root \<longrightarrow> (\<exists>f d'. failureLink (h ! n) = Some f \<and> depth h f = Some d' \<and> d' < d)) \<and>
        (\<forall>c. \<exists>r. fail_loop_bounded d n c h = Some r \<and> fail_loop n c h = Some r) \<and>
        (\<forall>p. parent (h ! n) = Some p \<longrightarrow> p \<noteq> root \<longrightarrow>
           (\<exists>h'. connect_loop_bounded d n (failureLink (h ! p)) h = Some h' \<and>
                 connect_loop n (failureLink (h ! p)) h = Some h'))"
    if n: "n < length h" for n
  proof -
    let ?d = "length (path h n)"
    have d: "depth h n = Some ?d" by (rule depth_path[OF wf n])
    have 1: "\<exists>f d'. failureLink (h ! n) = Some f \<and> depth h f = Some d' \<and> d' < ?d" if "n \<noteq> root"
    proof -
      from all_linked_fail[OF al n that] obtain f where f: "failureLink (h ! n) = Some f"
        "f < length h" "length (path h f) < length (path h n)" by blast
      with depth_path[OF wf f(2)] show ?thesis by simp
    qed
    have 2: "\<exists>r. fail_loop_bounded ?d n c h = Some r \<and> fail_loop n c h = Some r" for c
    proof -
      from fail_loop_bounded_total[OF al n, of ?d c] obtain r where
        "fail_loop_bounded ?d n c h = Some r" by auto
      with fail_loop_bounded_sound[OF this] show ?thesis by blast
    qed
    have 3: "\<exists>h'. connect_loop_bounded ?d n (failureLink (h ! p)) h = Some h' \<and>
                 connect_loop n (failureLink (h ! p)) h = Some h'"
      if p: "parent (h ! n) = Some p" "p \<noteq> root" for p
    proof -
      have nr: "n \<noteq> root"
      proof
        assume "n = root"
        then have "parent (h ! n) = None" using wf_trie_root[OF wf] by (simp add: root_def)
        with p(1) show False by simp
      qed
      from nonroot_parent[OF wf n nr] p(1) have pl: "p < length h"
        and pn: "path h n = path h p @ [parentChar (h ! n)]" by auto
      from all_linked_fail[OF al pl p(2)] obtain f where f: "failureLink (h ! p) = Some f"
        "f < length h" "length (path h f) < length (path h p)" by blast
      then have "length (path h f) < ?d" using pn by simp
      from connect_loop_bounded_total[OF al n f(2) this] obtain h' where
        "connect_loop_bounded ?d n (Some f) h = Some h'" by blast
      with connect_loop_bounded_sound[OF this] f(1) show ?thesis by simp
    qed
    from d 1 2 3 show ?thesis by blast
  qed
  then show ?thesis
    using ac all_linked_root(1,2)[OF al] unfolding h_def by blast
qed

theorem failure_chain_terminates_witness:
  "\<exists>ac. Aho_Corasick id [] [''ab'', ''b''] = Some ac \<and>
     depth (ac_nodes ac) 2 = Some 2 \<and>
     fail_loop_bounded 2 2 (CHR ''x'') (ac_nodes ac) = Some root \<and>
     fail_loop 2 (CHR ''x'') (ac_nodes ac) = Some root"
proof -
  from failure_chain_terminates [where ord = id and T = "[]" and ws = "[''ab'', ''b'']"] obtain ac where
    ac: "Aho_Corasick id [] [''ab'', ''b''] = Some ac"
    and r: "\<forall>n < length (ac_nodes ac). \<exists>d. depth (ac_nodes ac) n = Some d \<and>
        (n \<noteq> root \<longrightarrow>
           (\<exists>f d'. failureLink (ac_nodes ac ! n) = Some f \<and> depth (ac_nodes ac) f = Some d' \<and> d' < d)) \<and>
        (\<forall>c. \<exists>r. fail_loop_bounded d n c (ac_nodes ac) = Some r \<and>
                  fail_loop n c (ac_nodes ac) = Some r) \<and>
        (\<forall>p. parent (ac_nodes ac ! n) = Some p \<longrightarrow> p \<noteq> root \<longrightarrow>
           (\<exists>h'. connect_loop_bounded d n (failureLink (ac_nodes ac ! p)) (ac_nodes ac) = Some h' \<and>
                 connect_loop n (failureLink (ac_nodes ac ! p)) (ac_nodes ac) = Some h'))"
    by blast
  have v: "length (ac_nodes (the (Aho_Corasick id [] [''ab'', ''b'']))) = 4"
    "depth (ac_nodes (the (Aho_Corasick id [] [''ab'', ''b'']))) 2 = Some 2"
    "fail_loop_bounded 2 2 (CHR ''x'') (ac_nodes (the (Aho_Corasick id [] [''ab'', ''b'']))) = Some root"
    by code_simp+
  from v ac have l: "2 < length (ac_nodes ac)" "depth (ac_nodes ac) 2 = Some 2"
    "fail_loop_bounded 2 2 (CHR ''x'') (ac_nodes ac) = Some root" by simp_all
  from r[rule_format, OF l(1)] l(2) have
    "\<exists>r. fail_loop_bounded 2 2 (CHR ''x'') (ac_nodes ac) = Some r \<and>
         fail_loop 2 (CHR ''x'') (ac_nodes ac) = Some r" by auto
  with l(3) have "fail_loop 2 (CHR ''x'') (ac_nodes ac) = Some root" by auto
  with ac l show ?thesis by blast
qed

end
